theory Spec2Isabelle
  imports Complex_Main "HOL-Library.Word" "HOL-Library.Monad_Syntax"
begin

unbundle bit_operations_syntax

section \<open>Node kinds (core/node.hpp)\<close>

text \<open>
  \<^verbatim>\<open>enum class NodeType : uint32_t\<close>: one constructor per enumerator, in the order of the
  source. \<open>Pow'\<close> is the enumerator \<^verbatim>\<open>Pow\<close> (the name \<open>Pow\<close> is the power set in HOL).
\<close>

datatype NodeType =
    Add | Mul | Sub | Div | Aq | Fmax | Fmin | Pow'
  | Abs | Acos | Asin | Atan | Cbrt | Ceil | Cos | Cosh | Exp | Floor | Log | Logabs
  | Log1p | Sin | Sinh | Sqrt | Sqrtabs | Tan | Tanh | Square
  | Dynamic | Constant | Variable

text \<open>The underlying value of an enumerator (\<^verbatim>\<open>static_cast<utype>(type)\<close>): \<^verbatim>\<open>1u << k\<close>.\<close>

fun utype :: "NodeType \<Rightarrow> 32 word" where
  "utype Add = push_bit 0 1"
| "utype Mul = push_bit 1 1"
| "utype Sub = push_bit 2 1"
| "utype Div = push_bit 3 1"
| "utype Aq = push_bit 4 1"
| "utype Fmax = push_bit 5 1"
| "utype Fmin = push_bit 6 1"
| "utype Pow' = push_bit 7 1"
| "utype Abs = push_bit 8 1"
| "utype Acos = push_bit 9 1"
| "utype Asin = push_bit 10 1"
| "utype Atan = push_bit 11 1"
| "utype Cbrt = push_bit 12 1"
| "utype Ceil = push_bit 13 1"
| "utype Cos = push_bit 14 1"
| "utype Cosh = push_bit 15 1"
| "utype Exp = push_bit 16 1"
| "utype Floor = push_bit 17 1"
| "utype Log = push_bit 18 1"
| "utype Logabs = push_bit 19 1"
| "utype Log1p = push_bit 20 1"
| "utype Sin = push_bit 21 1"
| "utype Sinh = push_bit 22 1"
| "utype Sqrt = push_bit 23 1"
| "utype Sqrtabs = push_bit 24 1"
| "utype Tan = push_bit 25 1"
| "utype Tanh = push_bit 26 1"
| "utype Square = push_bit 27 1"
| "utype Dynamic = push_bit 28 1"
| "utype Constant = push_bit 29 1"
| "utype Variable = push_bit 30 1"

text \<open>\<^verbatim>\<open>NodeTypes::Count\<close>, the width of the bitset.\<close>

definition Count :: nat where
  "Count = 31"

text \<open>
  \<^verbatim>\<open>NodeTypes::GetIndex\<close>: \<^verbatim>\<open>std::bitset<Count>(static_cast<utype>(type) - 1).count()\<close>.
  The subtraction is that of \<^verbatim>\<open>uint32_t\<close>; the bitset keeps the low \<open>Count\<close> bits of
  the value and \<^verbatim>\<open>count()\<close> is the number of those that are set.
\<close>

definition GetIndex :: "NodeType \<Rightarrow> nat" where
  "GetIndex t = length (filter (bit (utype t - 1)) [0..<Count])"

section \<open>Nodes (core/node.hpp)\<close>

type_synonym Hash = "64 word"

text \<open>\<^verbatim>\<open>Operon::Scalar\<close>, the type of the node values, of the dataset and of the
  coefficients, is read as a real number: rounding, NaN and infinities of the IEEE formats
  are not part of the model of the interpreter and of the derivative calculator. The
  arithmetic kernels below are templates over their scalar type and are modelled for an
  arbitrary one.\<close>

type_synonym Scalar = real

text \<open>
  \<^verbatim>\<open>struct Node\<close>. \<open>Arity\<close>, \<open>Length\<close>, \<open>Depth\<close>, \<open>Level\<close> and \<open>Parent\<close> are
  \<^verbatim>\<open>uint16_t\<close> in the source; the functions modelled below only read them (converted to
  \<^verbatim>\<open>int\<close> or \<^verbatim>\<open>size_t\<close>), so they are natural numbers here.

  Modelled from the spec: the field \<open>Optimize\<close>. The interpreter reads \<^verbatim>\<open>n.Optimize\<close>, but the
  declaration of \<^verbatim>\<open>Node\<close> in core/node.hpp has no such member; the spec describes it as
  "a bit indicating whether value is a learnable parameter".
\<close>

record Node =
  HashValue :: Hash
  CalculatedHashValue :: Hash
  Value :: Scalar
  Arity :: nat
  Length :: nat
  Depth :: nat
  Level :: nat
  Parent :: nat
  Type :: NodeType
  IsEnabled :: bool
  Optimize :: bool

text \<open>
  \<^verbatim>\<open>Node(NodeType type, Operon::Hash hashValue)\<close>. The constructor leaves \<^verbatim>\<open>Depth\<close>,
  \<^verbatim>\<open>Level\<close> and \<^verbatim>\<open>Parent\<close> uninitialised, and knows no \<open>Optimize\<close>; they are \<open>0\<close> and
  \<open>False\<close> here. The comparisons are those of the underlying \<^verbatim>\<open>uint32_t\<close> values.
\<close>

definition Node_of_hash :: "NodeType \<Rightarrow> Hash \<Rightarrow> Node" where
  "Node_of_hash type hashValue =
     (let arity = (if utype type < utype Abs then 2
                   else if utype type < utype Constant then 1
                   else 0)
      in \<lparr> HashValue = hashValue, CalculatedHashValue = hashValue, Value = 1,
           Arity = arity, Length = arity, Depth = 0, Level = 0, Parent = 0,
           Type = type, IsEnabled = True, Optimize = False \<rparr>)"

text \<open>\<^verbatim>\<open>Node(NodeType type)\<close> delegates with \<^verbatim>\<open>static_cast<Operon::Hash>(type)\<close>.\<close>

definition Node_of :: "NodeType \<Rightarrow> Node" where
  "Node_of type = Node_of_hash type (ucast (utype type))"

definition IsLeaf :: "Node \<Rightarrow> bool" where
  "IsLeaf n \<longleftrightarrow> Arity n = 0"

definition IsCommutative :: "Node \<Rightarrow> bool" where
  "IsCommutative n \<longleftrightarrow> utype (Type n) < utype Sub"

definition IsConstant :: "Node \<Rightarrow> bool" where
  "IsConstant n \<longleftrightarrow> Type n = Constant"

definition IsVariable :: "Node \<Rightarrow> bool" where
  "IsVariable n \<longleftrightarrow> Type n = Variable"

section \<open>Per-batch kernels of the arithmetic kinds (detail::op, detail::dispatch_op)\<close>

text \<open>\<^verbatim>\<open>constexpr size_t BATCHSIZE = 64\<close>, the number of rows of a column.\<close>

definition BATCHSIZE :: nat where
  "BATCHSIZE = 64"

text \<open>
  The working buffer \<^verbatim>\<open>m\<close> is a column-major matrix with one column per node;
  \<^verbatim>\<open>m.col(i)\<close> is a column of \<^verbatim>\<open>BATCHSIZE\<close> scalars. A column is the list of its rows, the
  buffer the list of its columns. The kernels are templates over the scalar type
  \<^verbatim>\<open>T\<close> of the buffer: the type \<open>'a\<close> here.
\<close>

type_synonym 'a column = "'a list"
type_synonym 'a buffer = "'a column list"

text \<open>
  Eigen's array operators act on the rows one by one, with the operator of the scalar
  type. The kernels use \<^verbatim>\<open>+\<close>, \<^verbatim>\<open>-\<close>, \<^verbatim>\<open>*\<close>, \<^verbatim>\<open>/\<close>, the unary \<^verbatim>\<open>-\<close> and
  \<^verbatim>\<open>inverse()\<close>. The scalar type is any type with these operations, and nothing is
  assumed of them: no law of arithmetic (sums and products may round, and need not be
  associative) and no value for a division by zero. What is proved of the kernels for
  every such type holds for the arithmetic of \<^verbatim>\<open>float\<close> and \<^verbatim>\<open>double\<close> as it does for the
  real numbers.
\<close>

definition cadd :: "'a::plus column \<Rightarrow> 'a column \<Rightarrow> 'a column" where
  "cadd a b = map2 (+) a b"

definition csub :: "'a::minus column \<Rightarrow> 'a column \<Rightarrow> 'a column" where
  "csub a b = map2 (-) a b"

definition cmul :: "'a::times column \<Rightarrow> 'a column \<Rightarrow> 'a column" where
  "cmul a b = map2 (*) a b"

definition cdiv :: "'a::inverse column \<Rightarrow> 'a column \<Rightarrow> 'a column" where
  "cdiv a b = map2 (/) a b"

definition cneg :: "'a::uminus column \<Rightarrow> 'a column" where
  "cneg a = map uminus a"

definition cinv :: "'a::inverse column \<Rightarrow> 'a column" where
  "cinv a = map inverse a"

text \<open>The C++ fold expression \<^verbatim>\<open>(args + ...)\<close> over a non-empty pack: a unary right fold,
  \<^verbatim>\<open>a1 + (a2 + (... + an))\<close>.\<close>

fun fold_right :: "('a \<Rightarrow> 'a \<Rightarrow> 'a) \<Rightarrow> 'a \<Rightarrow> 'a list \<Rightarrow> 'a" where
  "fold_right f a [] = a"
| "fold_right f a (b # bs) = f a (fold_right f b bs)"

text \<open>
  \<^verbatim>\<open>detail::op<T, N>\<close>: the value assigned to \<^verbatim>\<open>ret\<close> by \<^verbatim>\<open>op(ret, arg1, args...)\<close>. The
  specialisations for \<^verbatim>\<open>Sub\<close>, \<^verbatim>\<open>Mul\<close> and \<^verbatim>\<open>Div\<close> come first; every other kind
  instantiates the primary template, which adds.
\<close>

definition op ::
  "NodeType \<Rightarrow> 'a::{plus, minus, times, uminus, inverse} column \<Rightarrow> 'a column list \<Rightarrow> 'a column"
  where
  "op N arg1 args =
     (case args of
        [] \<Rightarrow> (if N = Sub then cneg arg1
               else if N = Mul then arg1
               else if N = Div then cinv arg1
               else arg1)
      | a # as \<Rightarrow> (if N = Sub then csub arg1 (fold_right cadd a as)
                   else if N = Mul then cmul arg1 (fold_right cmul a as)
                   else if N = Div then cdiv arg1 (fold_right cmul a as)
                   else cadd arg1 (fold_right cadd a as)))"

text \<open>
  Indices are \<^verbatim>\<open>size_t\<close> in the source. They are integers here, and every access
  \<^verbatim>\<open>nodes[i]\<close> or \<^verbatim>\<open>m.col(i)\<close> checks its index: an index that wrapped around below zero
  is far beyond the end of any vector, so reading there is undefined behaviour, which is
  \<open>None\<close> in the model.
\<close>

definition node_at :: "Node list \<Rightarrow> int \<Rightarrow> Node option" where
  "node_at nodes i = (if 0 \<le> i \<and> i < int (length nodes) then Some (nodes ! nat i) else None)"

definition col :: "'a buffer \<Rightarrow> int \<Rightarrow> 'a column option" where
  "col m i = (if 0 \<le> i \<and> i < int (length m) then Some (m ! nat i) else None)"

text \<open>An assignment through the column view \<^verbatim>\<open>r = m.col(parentIndex)\<close>.\<close>

definition set_col :: "'a buffer \<Rightarrow> nat \<Rightarrow> 'a column \<Rightarrow> 'a buffer option" where
  "set_col m p c = (if p < length m then Some (m[p := c]) else None)"

text \<open>The lambda \<^verbatim>\<open>nextSibling\<close> of \<^verbatim>\<open>dispatch_op\<close>: \<^verbatim>\<open>i - (nodes[i].Length + 1)\<close>.\<close>

definition nextSibling :: "Node list \<Rightarrow> int \<Rightarrow> int option" where
  "nextSibling nodes i = do { n \<leftarrow> node_at nodes i; Some (i - (int (Length n) + 1)) }"

text \<open>
  The \<^verbatim>\<open>do { switch (arity) ... } while (arity > 0)\<close> loop of \<^verbatim>\<open>dispatch_op\<close>. The state of
  the loop is the buffer (written through \<^verbatim>\<open>r\<close>), \<^verbatim>\<open>arity\<close>, \<^verbatim>\<open>i\<close> and \<^verbatim>\<open>continued\<close>.
  The cases 1 to 5 return; the default case takes five children and goes round again.
\<close>

function dispatch_loop ::
  "NodeType \<Rightarrow> Node list \<Rightarrow> nat \<Rightarrow> 'a::{plus, minus, times, uminus, inverse} buffer
     \<Rightarrow> int \<Rightarrow> int \<Rightarrow> bool \<Rightarrow> 'a buffer option" where
  "dispatch_loop N nodes p m arity i continued =
     (if arity = 1 then
        (if continued
         then do { r \<leftarrow> col m (int p); a \<leftarrow> col m i; set_col m p (op N r [a]) }
         else do { a \<leftarrow> col m i; set_col m p (op N a []) })
      else if arity = 2 then
        do { j1 \<leftarrow> nextSibling nodes i;
             a \<leftarrow> col m i; b \<leftarrow> col m j1;
             set_col m p (op N a [b]) }
      else if arity = 3 then
        do { j1 \<leftarrow> nextSibling nodes i; j2 \<leftarrow> nextSibling nodes j1;
             a \<leftarrow> col m i; b \<leftarrow> col m j1; c \<leftarrow> col m j2;
             set_col m p (op N a [b, c]) }
      else if arity = 4 then
        do { j1 \<leftarrow> nextSibling nodes i; j2 \<leftarrow> nextSibling nodes j1;
             j3 \<leftarrow> nextSibling nodes j2;
             a \<leftarrow> col m i; b \<leftarrow> col m j1; c \<leftarrow> col m j2; d \<leftarrow> col m j3;
             set_col m p (op N a [b, c, d]) }
      else if arity = 5 then
        do { j1 \<leftarrow> nextSibling nodes i; j2 \<leftarrow> nextSibling nodes j1;
             j3 \<leftarrow> nextSibling nodes j2; j4 \<leftarrow> nextSibling nodes j3;
             a \<leftarrow> col m i; b \<leftarrow> col m j1; c \<leftarrow> col m j2; d \<leftarrow> col m j3; e \<leftarrow> col m j4;
             set_col m p (op N a [b, c, d, e]) }
      else
        do { j1 \<leftarrow> nextSibling nodes i; j2 \<leftarrow> nextSibling nodes j1;
             j3 \<leftarrow> nextSibling nodes j2; j4 \<leftarrow> nextSibling nodes j3;
             a \<leftarrow> col m i; b \<leftarrow> col m j1; c \<leftarrow> col m j2; d \<leftarrow> col m j3; e \<leftarrow> col m j4;
             m' \<leftarrow> set_col m p (op N a [b, c, d, e]);
             i' \<leftarrow> nextSibling nodes j4;
             if arity - 5 > 0 then dispatch_loop N nodes p m' (arity - 5) i' True
             else Some m' })"
  by pat_completeness auto
termination
  by (relation "measure (\<lambda>(N, nodes, p, m, arity, i, continued). nat arity)") auto

declare dispatch_loop.simps [simp del]

text \<open>
  \<^verbatim>\<open>dispatch_op<T, N>(m, nodes, parentIndex)\<close>: \<^verbatim>\<open>r = m.col(parentIndex)\<close>,
  \<^verbatim>\<open>arity = nodes[parentIndex].Arity\<close>, \<^verbatim>\<open>i = parentIndex - 1\<close>, \<^verbatim>\<open>continued = false\<close>,
  then the loop. The result is the buffer after the call.
\<close>

definition dispatch_op ::
  "NodeType \<Rightarrow> 'a::{plus, minus, times, uminus, inverse} buffer \<Rightarrow> Node list \<Rightarrow> nat
     \<Rightarrow> 'a buffer option" where
  "dispatch_op N m nodes parentIndex =
     do { _ \<leftarrow> col m (int parentIndex);
          parent \<leftarrow> node_at nodes (int parentIndex);
          dispatch_loop N nodes parentIndex m (int (Arity parent)) (int parentIndex - 1) False }"

text \<open>
  The child indices that \<^verbatim>\<open>dispatch_op\<close> visits: \<open>k\<close> indices starting at \<open>i\<close>, each the
  \<^verbatim>\<open>nextSibling\<close> of the one before (\<^verbatim>\<open>i, j1, j2, ...\<close>).
\<close>

fun child_indices :: "Node list \<Rightarrow> int \<Rightarrow> nat \<Rightarrow> int list option" where
  "child_indices nodes i 0 = Some []"
| "child_indices nodes i (Suc k) =
     do { j \<leftarrow> nextSibling nodes i; js \<leftarrow> child_indices nodes j k; Some (i # js) }"

text \<open>The children of the node at \<open>p\<close>: \<^verbatim>\<open>Arity\<close> indices starting at \<open>p - 1\<close>.\<close>

definition children :: "Node list \<Rightarrow> nat \<Rightarrow> int list option" where
  "children nodes p = child_indices nodes (int p - 1) (Arity (nodes ! p))"

text \<open>
  The consistency the tree encoding asks of the \<^verbatim>\<open>Length\<close> and \<^verbatim>\<open>Arity\<close> fields at a
  node \<open>p\<close>: its children are positions of the array, and the sum of their
  \<^verbatim>\<open>Length + 1\<close> is the \<^verbatim>\<open>Length\<close> of \<open>p\<close>.
\<close>

definition consistent_at :: "Node list \<Rightarrow> nat \<Rightarrow> bool" where
  "consistent_at nodes p \<longleftrightarrow>
     p < length nodes \<and>
     (case children nodes p of
        None \<Rightarrow> False
      | Some cs \<Rightarrow> (\<Sum>c\<leftarrow>cs. Length (nodes ! nat c) + 1) = Length (nodes ! p))"

subsection \<open>Trees of constants under one inner node\<close>

text \<open>A \<^verbatim>\<open>Constant\<close> node of a given value, and an inner node of kind \<open>t\<close> whose \<open>n\<close>
  children are leaves (\<^verbatim>\<open>arity = n, length = n\<close>).\<close>

definition const_node :: "Scalar \<Rightarrow> Node" where
  "const_node v = (Node_of Constant)\<lparr>Value := v\<rparr>"

definition inner :: "NodeType \<Rightarrow> nat \<Rightarrow> Node" where
  "inner t n = (Node_of t)\<lparr>Arity := n, Length := n\<rparr>"

text \<open>The tree \<^verbatim>\<open>[c1, ..., cn, N(arity = n, length = n)]\<close> of \<open>n\<close> constants under
  one node of kind \<open>N\<close>, in the order of the array.\<close>

definition flat_tree :: "NodeType \<Rightarrow> Scalar list \<Rightarrow> Node list" where
  "flat_tree N vs = map const_node vs @ [inner N (length vs)]"

text \<open>A working buffer whose columns are constant: column \<open>i\<close> holds \<open>vs ! i\<close> in
  each of its \<^verbatim>\<open>BATCHSIZE\<close> rows, as \<^verbatim>\<open>setConstant\<close> leaves the column of a constant.\<close>

definition const_buffer :: "Scalar list \<Rightarrow> Scalar buffer" where
  "const_buffer vs = map (replicate BATCHSIZE) vs"

text \<open>The tree \<^verbatim>\<open>[2, 3, Add(arity 2, length 2), 5, Mul(arity 2, length 4)]\<close>.\<close>

definition example_tree :: "Node list" where
  "example_tree = [const_node 2, const_node 3, inner Add 2, const_node 5,
                   (Node_of Mul)\<lparr>Arity := 2, Length := 4\<rparr>]"

section \<open>Forward-mode derivative calculator (autodiff/forward/forward.hpp)\<close>

text \<open>\<^verbatim>\<open>StorageOrder\<close>: \<^verbatim>\<open>Eigen::ColMajor\<close> or \<^verbatim>\<open>Eigen::RowMajor\<close>.\<close>

datatype StorageOrder = ColMajor | RowMajor

text \<open>
  Modelled from the spec: the dual scalar \<^verbatim>\<open>Dual\<close> (dual.hpp is not among the sources). The
  calculator reads and writes its members \<^verbatim>\<open>a\<close>, the real part, and \<^verbatim>\<open>v\<close>, the vector
  of \<^verbatim>\<open>Dual::DIMENSION\<close> derivative lanes. The dimension is the parameter \<open>D\<close> of the
  functions below.
\<close>

record Dual =
  a :: Scalar
  v :: "Scalar list"

text \<open>Writing the elements \<open>ys\<close> to consecutive positions of \<open>xs\<close> from offset \<open>off\<close> on
  (\<^verbatim>\<open>std::transform\<close> and \<^verbatim>\<open>std::copy_n\<close> into the Jacobian's memory).\<close>

definition write_at :: "'x list \<Rightarrow> nat \<Rightarrow> 'x list \<Rightarrow> 'x list" where
  "write_at xs off ys = take off xs @ ys @ drop (off + length ys) xs"

text \<open>The first loop: \<^verbatim>\<open>inputs[i].a = coeff[i]; inputs[i].v.setZero()\<close>.\<close>

definition initial_inputs :: "nat \<Rightarrow> Scalar list \<Rightarrow> Dual list" where
  "initial_inputs D coeff = map (\<lambda>c. \<lparr>a = c, v = replicate D 0\<rparr>) coeff"

text \<open>The seeding loop of a sweep:
  \<^verbatim>\<open>for (auto i = s; i < r; ++i) { inputs[i].v[i - s] = 1.0; }\<close>.\<close>

definition seed :: "Dual list \<Rightarrow> nat \<Rightarrow> nat \<Rightarrow> Dual list" where
  "seed inputs s r =
     fold (\<lambda>i inp. inp[i := (inp ! i)\<lparr>v := (v (inp ! i))[i - s := 1]\<rparr>]) [s..<r] inputs"

text \<open>
  Filling the Jacobian after a sweep. The Jacobian is its memory, \<open>nrows * P\<close> scalars.
  Column-major: for each parameter \<open>i\<close> of the chunk, \<^verbatim>\<open>std::transform\<close> writes lane
  \<open>i - s\<close> of every output row to the \<open>nrows\<close> positions of column \<open>i\<close>. Row-major: for
  each output row \<open>i\<close>, \<^verbatim>\<open>std::copy_n\<close> copies the first \<open>r - s\<close> lanes to row \<open>i\<close>
  from position \<open>s\<close> on. The counter of the row-major loop,
  \<^verbatim>\<open>for (auto i = 0; i < outputs.size(); ++i)\<close>, is an \<^verbatim>\<open>int\<close>: with \<open>2^31\<close> output rows or
  more, \<^verbatim>\<open>++i\<close> overflows at \<open>2^31 - 1\<close>, which is undefined behaviour and \<open>None\<close> here. The
  counter of the column-major loop is the unsigned \<^verbatim>\<open>i = s\<close>, bounded by \<open>r\<close>.
\<close>

definition fill ::
  "StorageOrder \<Rightarrow> nat \<Rightarrow> nat \<Rightarrow> Dual list \<Rightarrow> nat \<Rightarrow> nat \<Rightarrow> Scalar list \<Rightarrow> Scalar list option" where
  "fill order nrows P outputs s r jac =
     (case order of
        ColMajor \<Rightarrow>
          Some (fold (\<lambda>i j. write_at j (i * nrows) (map (\<lambda>jet. v jet ! (i - s)) outputs))
                  [s..<r] jac)
      | RowMajor \<Rightarrow>
          if 2 ^ 31 \<le> int (length outputs) then None
          else Some (fold (\<lambda>i j. write_at j (i * P + s)
                                    (map (\<lambda>k. v (outputs ! i) ! k) [0..<r - s]))
                       [0..<length outputs] jac))"

text \<open>
  The loop over the chunks, \<^verbatim>\<open>for (auto s = 0U; s < inputs.size(); s += d)\<close>. The
  interpreter is the template parameter of the class: \<open>interp inputs row\<close> is the dual
  number it writes to \<^verbatim>\<open>outputs[row]\<close> when run with the parameters \<open>inputs\<close> (tree,
  dataset and range are the same in every sweep). With \<open>D = 0\<close> the loop would not
  advance: \<open>None\<close>.
\<close>

function sweep ::
  "(Dual list \<Rightarrow> nat \<Rightarrow> Dual) \<Rightarrow> StorageOrder \<Rightarrow> nat \<Rightarrow> nat \<Rightarrow> Dual list \<Rightarrow> nat \<Rightarrow> Scalar list
     \<Rightarrow> Scalar list option" where
  "sweep interp order nrows D inputs s jac =
     (if s < length inputs then
        (if D = 0 then None
         else
           let r = min (length inputs) (s + D);
               inputs' = seed inputs s r;
               outputs = map (interp inputs') [0..<nrows]
           in do { jac' \<leftarrow> fill order nrows (length inputs) outputs s r jac;
                   sweep interp order nrows D inputs' (s + D) jac' })
      else Some jac)"
  by pat_completeness auto
termination
proof (relation "measure (\<lambda>(interp, order, nrows, D, inputs, s, jac). length inputs - s)",
    goal_cases)
  case 1
  show ?case
    by simp
next
  case (2 interp order nrows D inputs s jac r inputs' outputs jac')
  have "length (fold (\<lambda>i inp. inp[i := g i inp]) is inputs) = length inputs"
    for g :: "nat \<Rightarrow> Dual list \<Rightarrow> Dual" and "is" inputs
    by (induction "is" arbitrary: inputs) auto
  with 2 show ?case
    by (auto simp: seed_def)
qed

declare sweep.simps [simp del]

text \<open>
  \<^verbatim>\<open>DerivativeCalculator::operator()\<close> with the output pointer: \<open>nrows\<close> is
  \<^verbatim>\<open>range.Size()\<close>, the Jacobian is set to zero, the inputs are initialised, then the
  sweeps. The counter \<^verbatim>\<open>s\<close> is a 32-bit unsigned integer; the model covers the calls in
  which it does not wrap around (\<open>P + D \<le> 2^32\<close>) and is \<open>None\<close> on the others.
\<close>

definition DerivativeCalculator ::
  "(Dual list \<Rightarrow> nat \<Rightarrow> Dual) \<Rightarrow> StorageOrder \<Rightarrow> nat \<Rightarrow> Scalar list \<Rightarrow> nat \<Rightarrow> Scalar list option" where
  "DerivativeCalculator interp order D coeff nrows =
     (if 2 ^ 32 < int (length coeff) + int D then None
      else sweep interp order nrows D (initial_inputs D coeff) 0
             (replicate (nrows * length coeff) 0))"

text \<open>The entry \<^verbatim>\<open>jac(r, i)\<close> of the Jacobian in its memory, as \<^verbatim>\<open>Eigen::Map\<close> with the given
  storage order addresses it, and the Jacobian as the list of its rows.\<close>

definition entry :: "StorageOrder \<Rightarrow> nat \<Rightarrow> nat \<Rightarrow> Scalar list \<Rightarrow> nat \<Rightarrow> nat \<Rightarrow> Scalar" where
  "entry order nrows P jac r i =
     jac ! (case order of ColMajor \<Rightarrow> i * nrows + r | RowMajor \<Rightarrow> r * P + i)"

definition matrix_of :: "StorageOrder \<Rightarrow> nat \<Rightarrow> nat \<Rightarrow> Scalar list \<Rightarrow> Scalar list list" where
  "matrix_of order nrows P jac = map (\<lambda>r. map (entry order nrows P jac r) [0..<P]) [0..<nrows]"

subsection \<open>Two interpreters on dual numbers\<close>

text \<open>Sum and scaling of dual numbers, lane by lane.\<close>

definition dual_add :: "Dual \<Rightarrow> Dual \<Rightarrow> Dual" where
  "dual_add x y = \<lparr>a = a x + a y, v = map2 (+) (v x) (v y)\<rparr>"

definition dual_scale :: "Scalar \<Rightarrow> Dual \<Rightarrow> Dual" where
  "dual_scale c x = \<lparr>a = c * a x, v = map ((*) c) (v x)\<rparr>"

text \<open>The tree that adds all its parameters: every output row is the sum of the inputs.\<close>

definition sum_interp :: "Dual list \<Rightarrow> nat \<Rightarrow> Dual" where
  "sum_interp inputs row = fold_right dual_add (hd inputs) (tl inputs)"

text \<open>The tree \<^verbatim>\<open>a * X + b\<close> over a column \<open>X\<close>, with parameters \<^verbatim>\<open>[a, b]\<close>.\<close>

definition linear_interp :: "Scalar list \<Rightarrow> Dual list \<Rightarrow> nat \<Rightarrow> Dual" where
  "linear_interp X inputs row = dual_add (dual_scale (X ! row) (inputs ! 0)) (inputs ! 1)"

section \<open>Primal interpreter (interpreter/interpreter.hpp)\<close>

text \<open>
  Modelled from the spec: \<^verbatim>\<open>Operon::Range\<close> (its header is not among the sources), "a
  half-open \<^verbatim>\<open>[start, end)\<close> row interval into the dataset. Size is \<^verbatim>\<open>end - start\<close>".
\<close>

record Range =
  Start :: nat
  End :: nat

definition Size :: "Range \<Rightarrow> nat" where
  "Size rng = End rng - Start rng"

text \<open>
  Modelled from the spec: the dataset (core/dataset.hpp is not among the sources).
  \<^verbatim>\<open>dataset.GetValues(hash)\<close> is the column of the variable with that hash; an unknown hash
  is a contract violation, \<open>None\<close> here.
\<close>

type_synonym Dataset = "Hash \<Rightarrow> Scalar list option"

text \<open>\<^verbatim>\<open>span.subspan(off, n)\<close>; reaching beyond the end of the span is undefined behaviour.\<close>

definition subspan :: "'x list \<Rightarrow> nat \<Rightarrow> nat \<Rightarrow> 'x list option" where
  "subspan xs off n = (if off + n \<le> length xs then Some (take n (drop off xs)) else None)"

text \<open>
  The dispatch table (dispatch_table.hpp is not among the sources) is a parameter of the
  interpreter: \<^verbatim>\<open>ftable_.TryGet<T>(hash)\<close> is an optional callable, invoked as
  \<^verbatim>\<open>func(m, nodes, i, rg)\<close> on the working buffer, which it may change. A callable is a
  function from the buffer to the buffer after the call, \<open>None\<close> when the call has
  undefined behaviour. The type allows a callable to change the shape of the buffer,
  which no kernel can in the source; the properties below ask the callables of the table
  to keep it.
\<close>

type_synonym Callable =
  "Scalar buffer \<Rightarrow> Node list \<Rightarrow> nat \<Rightarrow> Range \<Rightarrow> Scalar buffer option"
type_synonym DTable = "Hash \<Rightarrow> Callable option"

text \<open>\<^verbatim>\<open>NodeMeta\<close>: the effective scalar, the view on the variable's column (empty for the
  other nodes, where the source keeps a null pointer), the callable.\<close>

type_synonym NodeMeta = "Scalar \<times> Scalar list \<times> Callable option"

text \<open>
  The first loop of \<^verbatim>\<open>Evaluate\<close>, over the nodes from position \<open>i\<close> on: it builds
  \<^verbatim>\<open>meta\<close>, consumes \<^verbatim>\<open>parameters[idx++]\<close> at every node whose \<^verbatim>\<open>Optimize\<close> is set
  (when parameters are given), and sets the column of a \<^verbatim>\<open>Constant\<close> to its scalar.
  \<open>S\<close> is \<^verbatim>\<open>detail::BatchSize<T>::Value\<close>, the number of rows of a column.
\<close>

fun setup_loop ::
  "DTable \<Rightarrow> Dataset \<Rightarrow> Range \<Rightarrow> Scalar list option \<Rightarrow> nat \<Rightarrow> Node list \<Rightarrow> nat \<Rightarrow> nat
     \<Rightarrow> Scalar buffer \<Rightarrow> (NodeMeta list \<times> Scalar buffer) option" where
  "setup_loop ft dataset rng parameters S [] i idx m = Some ([], m)"
| "setup_loop ft dataset rng parameters S (n # ns) i idx m =
     do { values \<leftarrow> (if IsVariable n
                     then do { c \<leftarrow> dataset (HashValue n); subspan c (Start rng) (Size rng) }
                     else Some []);
          (param, idx') \<leftarrow>
             (case parameters of
                Some ps \<Rightarrow>
                  if Optimize n
                  then (if idx < length ps then Some (ps ! idx, idx + 1) else None)
                  else Some (Value n, idx)
              | None \<Rightarrow> Some (Value n, idx));
          m' \<leftarrow> (if IsConstant n then set_col m i (replicate S param) else Some m);
          (meta, m'') \<leftarrow> setup_loop ft dataset rng parameters S ns (i + 1) idx' m';
          Some ((param, values, ft (HashValue n)) # meta, m'') }"

text \<open>
  The body of the inner loop for node \<open>i\<close>: a variable writes
  \<^verbatim>\<open>param * values.segment(row, remainingRows)\<close> to the first \<^verbatim>\<open>remainingRows\<close> rows of
  its column; any other node with a callable has it invoked; the rest is left alone.
\<close>

definition node_step ::
  "Node list \<Rightarrow> NodeMeta list \<Rightarrow> Range \<Rightarrow> nat \<Rightarrow> nat \<Rightarrow> nat \<Rightarrow> Scalar buffer
     \<Rightarrow> Scalar buffer option" where
  "node_step nodes meta rg row remainingRows i m =
     (case meta ! i of (param, values, func) \<Rightarrow>
        if IsVariable (nodes ! i) then
          do { c \<leftarrow> col m (int i);
               set_col m i
                 (write_at c 0 (map ((*) param) (take remainingRows (drop row values)))) }
        else (case func of Some f \<Rightarrow> f m nodes i rg | None \<Rightarrow> Some m))"

fun node_loop ::
  "Node list \<Rightarrow> NodeMeta list \<Rightarrow> Range \<Rightarrow> nat \<Rightarrow> nat \<Rightarrow> nat list \<Rightarrow> Scalar buffer
     \<Rightarrow> Scalar buffer option" where
  "node_loop nodes meta rg row remainingRows [] m = Some m"
| "node_loop nodes meta rg row remainingRows (i # is) m =
     do { m' \<leftarrow> node_step nodes meta rg row remainingRows i m;
          node_loop nodes meta rg row remainingRows is m' }"

text \<open>
  The loop over the row blocks, \<^verbatim>\<open>for (int row = 0; row < numRows; row += S)\<close>: the nodes
  in order, then the first \<^verbatim>\<open>remainingRows\<close> rows of the last column go to the result at
  \<^verbatim>\<open>row\<close>. With \<open>S = 0\<close> the loop would not advance: \<open>None\<close>. The counter \<^verbatim>\<open>row\<close>
  is an \<^verbatim>\<open>int\<close>, and \<^verbatim>\<open>row += S\<close> runs after every block, the last one included: where
  \<open>row + S\<close> is beyond the largest \<^verbatim>\<open>int\<close>, \<open>2^31 - 1\<close>, the addition overflows, which is
  undefined behaviour and \<open>None\<close> here.
\<close>

function block_loop ::
  "nat \<Rightarrow> Node list \<Rightarrow> NodeMeta list \<Rightarrow> Range \<Rightarrow> nat \<Rightarrow> nat \<Rightarrow> Scalar buffer
     \<Rightarrow> Scalar list \<Rightarrow> Scalar list option" where
  "block_loop S nodes meta rng numRows row m res =
     (if row < numRows then
        (if S = 0 then None
         else
           let remainingRows = min S (numRows - row);
               rg = \<lparr>Start = Start rng + row, End = Start rng + row + remainingRows\<rparr>
           in do { m' \<leftarrow> node_loop nodes meta rg row remainingRows [0..<length nodes] m;
                   back \<leftarrow> (if m' = [] then None else Some (last m'));
                   if 2 ^ 31 \<le> int row + int S then None
                   else block_loop S nodes meta rng numRows (row + S) m'
                          (write_at res row (take remainingRows back)) })
      else Some res)"
  by pat_completeness auto
termination
  by (relation "measure (\<lambda>(S, nodes, meta, rng, numRows, row, m, res). numRows - row)") auto

declare block_loop.simps [simp del]

text \<open>
  \<^verbatim>\<open>Evaluate(tree, dataset, range, result, parameters)\<close>, the overload that writes to a
  span; the value is the span after the call. \<^verbatim>\<open>EXPECT(!nodes.empty())\<close> fails on an empty
  tree. The working buffer is not initialised by the source: \<open>junk i k\<close> is what row \<open>k\<close>
  of column \<open>i\<close> holds at the start. \<^verbatim>\<open>S\<close> and \<^verbatim>\<open>numRows\<close> are \<^verbatim>\<open>int\<close>s: the model covers
  batch sizes below \<open>2^31\<close>, ranges of fewer than \<open>2^31\<close> rows with \<open>Start \<le> End\<close>, and
  results at least as long as the range; the overflow of the row counter is in
  \<open>block_loop\<close>.
\<close>

definition Evaluate_span ::
  "DTable \<Rightarrow> nat \<Rightarrow> (nat \<Rightarrow> nat \<Rightarrow> Scalar) \<Rightarrow> Node list \<Rightarrow> Dataset \<Rightarrow> Range \<Rightarrow> Scalar list
     \<Rightarrow> Scalar list option \<Rightarrow> Scalar list option" where
  "Evaluate_span ft S junk nodes dataset rng result parameters =
     (if nodes = [] then None
      else if 2 ^ 31 \<le> int S then None
      else if End rng < Start rng \<or> 2 ^ 31 \<le> int (Size rng) then None
      else if length result < Size rng then None
      else do { (meta, m) \<leftarrow> setup_loop ft dataset rng parameters S nodes 0 0
                                 (map (\<lambda>i. map (junk i) [0..<S]) [0..<length nodes]);
                block_loop S nodes meta rng (Size rng) 0 m result })"

text \<open>\<^verbatim>\<open>Evaluate(tree, dataset, range, parameters)\<close>, which returns a vector.\<close>

definition Evaluate ::
  "DTable \<Rightarrow> nat \<Rightarrow> (nat \<Rightarrow> nat \<Rightarrow> Scalar) \<Rightarrow> Node list \<Rightarrow> Dataset \<Rightarrow> Range
     \<Rightarrow> Scalar list option \<Rightarrow> Scalar list option" where
  "Evaluate ft S junk nodes dataset rng parameters =
     Evaluate_span ft S junk nodes dataset rng (replicate (Size rng) 0) parameters"

text \<open>
  The batched overload. \<open>tiles\<close> is its \<^verbatim>\<open>std::for_each\<close> over the tile indices: each
  tile evaluates its sub-range into its sub-span of the result (\<open>junk idx\<close> is the
  uninitialised buffer of that call). A batch size of 0 divides by zero; the model covers
  the calls with \<open>Start \<le> End\<close> (otherwise \<^verbatim>\<open>range.Size()\<close> is not \<open>End - Start\<close>) in which
  \<^verbatim>\<open>start + batchSize\<close> does not wrap around.
\<close>

fun tiles ::
  "DTable \<Rightarrow> nat \<Rightarrow> (nat \<Rightarrow> nat \<Rightarrow> nat \<Rightarrow> Scalar) \<Rightarrow> Node list \<Rightarrow> Dataset \<Rightarrow> Range \<Rightarrow> nat
     \<Rightarrow> Scalar list option \<Rightarrow> nat list \<Rightarrow> Scalar list \<Rightarrow> Scalar list option" where
  "tiles ft S junk nodes dataset rng batchSize parameters [] result = Some result"
| "tiles ft S junk nodes dataset rng batchSize parameters (idx # idxs) result =
     (let start = Start rng + idx * batchSize;
          stop = min (start + batchSize) (End rng)
      in do { subview \<leftarrow> subspan result (idx * batchSize) (stop - start);
              subview' \<leftarrow> Evaluate_span ft S (junk idx) nodes dataset
                            \<lparr>Start = start, End = stop\<rparr> subview parameters;
              tiles ft S junk nodes dataset rng batchSize parameters idxs
                (write_at result (idx * batchSize) subview') })"

definition Evaluate_batched ::
  "DTable \<Rightarrow> nat \<Rightarrow> (nat \<Rightarrow> nat \<Rightarrow> nat \<Rightarrow> Scalar) \<Rightarrow> Node list \<Rightarrow> Dataset \<Rightarrow> Range \<Rightarrow> nat
     \<Rightarrow> Scalar list option \<Rightarrow> Scalar list option" where
  "Evaluate_batched ft S junk nodes dataset rng batchSize parameters =
     (if batchSize = 0 \<or> End rng < Start rng \<or> 2 ^ 64 \<le> int (End rng) + int batchSize
      then None
      else
        let n = Size rng div batchSize;
            m = Size rng mod batchSize;
            indices = [0..<n + (if m \<noteq> 0 then 1 else 0)]
        in tiles ft S junk nodes dataset rng batchSize parameters indices
             (replicate (Size rng) 0))"

subsection \<open>Preconditions of a call\<close>

text \<open>
  The callables of the table work row by row on this tree: invoked for node \<open>i\<close> on a
  buffer of the right shape and a block of at most \<open>S\<close> rows, a callable returns, changes
  column \<open>i\<close> only, and row \<open>k\<close> of the block there is \<open>g i r vs\<close>, a function of the node,
  the row \<open>r\<close> of the dataset and the values \<open>vs\<close> of the columns before \<open>i\<close> in row \<open>k\<close>.
\<close>

definition kernels_rowwise ::
  "DTable \<Rightarrow> nat \<Rightarrow> Node list \<Rightarrow> (nat \<Rightarrow> nat \<Rightarrow> Scalar list \<Rightarrow> Scalar) \<Rightarrow> bool" where
  "kernels_rowwise ft S nodes g \<longleftrightarrow>
     (\<forall>i<length nodes. \<forall>f. ft (HashValue (nodes ! i)) = Some f \<longrightarrow> \<not> IsVariable (nodes ! i) \<longrightarrow>
        (\<forall>m rg. length m = length nodes \<and> (\<forall>c\<in>set m. length c = S) \<and>
                 Start rg \<le> End rg \<and> Size rg \<le> S \<longrightarrow>
           (\<exists>c. f m nodes i rg = Some (m[i := c]) \<and> length c = S \<and>
                (\<forall>k<Size rg. c ! k = g i (Start rg + k) (map (\<lambda>x. x ! k) (take i m))))))"

text \<open>
  A valid call: a non-empty tree, a positive batch size \<open>S\<close> below \<open>2^31\<close>, a range that
  lies within the column of every variable of the tree and is short enough for the
  \<^verbatim>\<open>int\<close> row counter, which advances by \<open>S\<close> until it reaches the size of the range, not
  to overflow (\<open>Size + S \<le> 2^31\<close>, so that the size fits an \<^verbatim>\<open>int\<close> as well), a callable
  for every node that is neither a variable nor a constant, and at least as many
  parameters as nodes marked \<open>Optimize\<close>.
\<close>

definition valid_call ::
  "DTable \<Rightarrow> nat \<Rightarrow> Node list \<Rightarrow> Dataset \<Rightarrow> Range \<Rightarrow> Scalar list option \<Rightarrow> bool" where
  "valid_call ft S nodes dataset rng parameters \<longleftrightarrow>
     nodes \<noteq> [] \<and> 0 < S \<and> int S < 2 ^ 31 \<and>
     Start rng \<le> End rng \<and> int (Size rng) + int S \<le> 2 ^ 31 \<and>
     (\<forall>n\<in>set nodes. IsVariable n \<longrightarrow>
        (\<exists>c. dataset (HashValue n) = Some c \<and> End rng \<le> length c)) \<and>
     (\<forall>n\<in>set nodes. IsVariable n \<or> IsConstant n \<or> ft (HashValue n) \<noteq> None) \<and>
     (\<forall>ps. parameters = Some ps \<longrightarrow> length (filter Optimize nodes) \<le> length ps)"

text \<open>Two trees that differ in the \<open>Value\<close> fields of their nodes at most, and a table
  whose callables do not read that field.\<close>

definition same_but_Value :: "Node list \<Rightarrow> Node list \<Rightarrow> bool" where
  "same_but_Value ns ns' \<longleftrightarrow> map (\<lambda>n. n\<lparr>Value := 0\<rparr>) ns = map (\<lambda>n. n\<lparr>Value := 0\<rparr>) ns'"

definition value_blind :: "DTable \<Rightarrow> bool" where
  "value_blind ft \<longleftrightarrow>
     (\<forall>h f m ns ns' i rg. ft h = Some f \<and> same_but_Value ns ns' \<longrightarrow> f m ns i rg = f m ns' i rg)"

text \<open>
  The tree of the parameter-substitution property, in the words of the spec: the value of
  each \<open>Optimize\<close>-marked leaf is replaced by the corresponding parameter entry, the
  parameters being consumed in tree order of the \<open>Optimize\<close>-marked leaves.
\<close>

fun substitute :: "Node list \<Rightarrow> Scalar list \<Rightarrow> Node list" where
  "substitute [] ps = []"
| "substitute (n # ns) ps =
     (if Optimize n \<and> IsLeaf n
      then (case ps of
              [] \<Rightarrow> n # substitute ns []
            | p # ps' \<Rightarrow> n\<lparr>Value := p\<rparr> # substitute ns ps')
      else n # substitute ns ps)"

subsection \<open>The value of a row\<close>

text \<open>
  The scalar of each node as the set-up loop determines it, the meta records it builds,
  and the values of the nodes \<open>0, ..., i - 1\<close> in row \<open>r\<close> of the dataset: a variable is its
  scalar times the column's entry, a node with a callable is \<open>g\<close> of the values before
  it, any other node is its scalar. \<open>row_out\<close> is the value of the root.
\<close>

fun params_of :: "Scalar list option \<Rightarrow> Node list \<Rightarrow> nat \<Rightarrow> Scalar list" where
  "params_of parameters [] idx = []"
| "params_of parameters (n # ns) idx =
     (case parameters of
        Some ps \<Rightarrow> if Optimize n then ps ! idx # params_of parameters ns (idx + 1)
                   else Value n # params_of parameters ns idx
      | None \<Rightarrow> Value n # params_of parameters ns idx)"

definition meta_of :: "DTable \<Rightarrow> Dataset \<Rightarrow> Range \<Rightarrow> Node list \<Rightarrow> Scalar list \<Rightarrow> NodeMeta list" where
  "meta_of ft dataset rng ns ps =
     map (\<lambda>(n, p). (p, (if IsVariable n
                         then take (Size rng) (drop (Start rng) (the (dataset (HashValue n))))
                         else []),
                     ft (HashValue n))) (zip ns ps)"

fun row_vals ::
  "DTable \<Rightarrow> Dataset \<Rightarrow> (nat \<Rightarrow> nat \<Rightarrow> Scalar list \<Rightarrow> Scalar) \<Rightarrow> Node list \<Rightarrow> Scalar list \<Rightarrow> nat \<Rightarrow> nat
     \<Rightarrow> Scalar list" where
  "row_vals ft dataset g nodes ps r 0 = []"
| "row_vals ft dataset g nodes ps r (Suc i) =
     (let vs = row_vals ft dataset g nodes ps r i
      in vs @ [if IsVariable (nodes ! i)
               then ps ! i * the (dataset (HashValue (nodes ! i))) ! r
               else if ft (HashValue (nodes ! i)) \<noteq> None then g i r vs
               else ps ! i])"

definition row_out ::
  "DTable \<Rightarrow> Dataset \<Rightarrow> (nat \<Rightarrow> nat \<Rightarrow> Scalar list \<Rightarrow> Scalar) \<Rightarrow> Node list \<Rightarrow> Scalar list \<Rightarrow> nat
     \<Rightarrow> Scalar" where
  "row_out ft dataset g nodes ps r = last (row_vals ft dataset g nodes ps r (length nodes))"

subsection \<open>A table of the arithmetic kernels, a dataset and a tree\<close>

text \<open>
  Modelled from the spec: a dispatch table (dispatch_table.hpp is not among the sources),
  "a mapping from (kind, scalarType) to a kernel", in which "leaves always map to empty".
  This one has \<^verbatim>\<open>dispatch_op<T, N>\<close> for the kinds \<open>Add\<close>, \<open>Mul\<close>, \<open>Sub\<close> and \<open>Div\<close>,
  under the hash that \<^verbatim>\<open>Node(N)\<close> gives a node of the kind, and nothing else; the kernel
  works on whole columns and does not look at the row block. Its scalar type is that of
  the interpreter's buffer, \<open>Scalar\<close>.
\<close>

definition arith_table :: DTable where
  "arith_table h =
     (if h = ucast (utype Add) then Some (\<lambda>m nodes i rg. dispatch_op Add m nodes i)
      else if h = ucast (utype Mul) then Some (\<lambda>m nodes i rg. dispatch_op Mul m nodes i)
      else if h = ucast (utype Sub) then Some (\<lambda>m nodes i rg. dispatch_op Sub m nodes i)
      else if h = ucast (utype Div) then Some (\<lambda>m nodes i rg. dispatch_op Div m nodes i)
      else None)"

text \<open>A variable node with a hash and a weight, and a dataset with the columns
  \<open>X = [1, 2, 3]\<close> (hash 1000) and \<open>Y = [10, 20, 30]\<close> (hash 2000).\<close>

definition variable :: "Hash \<Rightarrow> Scalar \<Rightarrow> Node" where
  "variable h w = (Node_of_hash Variable h)\<lparr>Value := w\<rparr>"

definition xy_data :: Dataset where
  "xy_data h = (if h = 1000 then Some [1, 2, 3] else if h = 2000 then Some [10, 20, 30] else None)"

text \<open>The tree \<^verbatim>\<open>a * X + b\<close> with \<open>b = 3\<close> and \<open>a = 2\<close>, both marked \<open>Optimize\<close>:
  \<^verbatim>\<open>[Constant(b), Variable(X, weight a), Add(arity 2, length 2)]\<close>.\<close>

definition lin_tree :: "Node list" where
  "lin_tree = [(const_node 3)\<lparr>Optimize := True\<rparr>, (variable 1000 2)\<lparr>Optimize := True\<rparr>,
               inner Add 2]"

section \<open>Properties of the node kinds\<close>

lemma GetIndex_values:
  "GetIndex Add = 0" "GetIndex Mul = 1" "GetIndex Sub = 2" "GetIndex Div = 3"
  "GetIndex Aq = 4" "GetIndex Fmax = 5" "GetIndex Fmin = 6" "GetIndex Pow' = 7"
  "GetIndex Abs = 8" "GetIndex Acos = 9" "GetIndex Asin = 10" "GetIndex Atan = 11"
  "GetIndex Cbrt = 12" "GetIndex Ceil = 13" "GetIndex Cos = 14" "GetIndex Cosh = 15"
  "GetIndex Exp = 16" "GetIndex Floor = 17" "GetIndex Log = 18" "GetIndex Logabs = 19"
  "GetIndex Log1p = 20" "GetIndex Sin = 21" "GetIndex Sinh = 22" "GetIndex Sqrt = 23"
  "GetIndex Sqrtabs = 24" "GetIndex Tan = 25" "GetIndex Tanh = 26" "GetIndex Square = 27"
  "GetIndex Dynamic = 28" "GetIndex Constant = 29" "GetIndex Variable = 30"
  by (simp_all add: GetIndex_def Count_def upt_rec)

lemma GetIndex_inj_aux: "GetIndex s = GetIndex t \<Longrightarrow> s = t"
  by (cases s; cases t; simp add: GetIndex_values)

lemma GetIndex_le: "GetIndex t \<le> 30"
  by (cases t; simp add: GetIndex_values)

lemma GetIndex_onto: "k \<le> 30 \<Longrightarrow> \<exists>t. GetIndex t = k"
proof -
  assume "k \<le> 30"
  have "map GetIndex [Add, Mul, Sub, Div, Aq, Fmax, Fmin, Pow', Abs, Acos, Asin,
      Atan, Cbrt, Ceil, Cos, Cosh, Exp, Floor, Log, Logabs, Log1p, Sin, Sinh, Sqrt, Sqrtabs,
      Tan, Tanh, Square, Dynamic, Constant, Variable] = [0..<31]"
    by (simp add: GetIndex_values upt_rec)
  moreover from \<open>k \<le> 30\<close> have "k \<in> set [0..<31]"
    by simp
  ultimately have "k \<in> set (map GetIndex [Add, Mul, Sub, Div, Aq, Fmax, Fmin, Pow', Abs,
      Acos, Asin, Atan, Cbrt, Ceil, Cos, Cosh, Exp, Floor, Log, Logabs, Log1p, Sin, Sinh, Sqrt,
      Sqrtabs, Tan, Tanh, Square, Dynamic, Constant, Variable])"
    by (simp only:)
  then show ?thesis
    unfolding set_map by blast
qed

text \<open>
  C10. Every node kind \<open>t\<close> is the single bit \<^verbatim>\<open>1u << k\<close> whose position \<open>k \<le> 30\<close> is
  what \<open>GetIndex t\<close> returns, and \<open>GetIndex\<close> is a bijection between the 31 kinds and the
  indices \<open>0 .. 30\<close>.
\<close>

theorem GetIndex_bit_position:
  "utype t = push_bit (GetIndex t) 1 \<and> GetIndex t \<le> 30
   \<and> inj GetIndex \<and> range GetIndex = {0..30}"
proof -
  have "utype t = push_bit (GetIndex t) 1"
    by (cases t; simp add: GetIndex_values)
  moreover have "inj GetIndex"
    by (rule injI) (rule GetIndex_inj_aux)
  moreover have "range GetIndex = {0..30}"
    using GetIndex_le GetIndex_onto by (auto simp: image_iff) metis
  ultimately show ?thesis
    using GetIndex_le by simp
qed

text \<open>What \<open>IsCommutative\<close> returns: it compares the kind with \<^verbatim>\<open>NodeType::Sub\<close>, and the
  kinds below \<open>Sub\<close> in the order of the enumeration are \<open>Add\<close> and \<open>Mul\<close>.\<close>

lemma IsCommutative_iff_Add_Mul:
  "IsCommutative n \<longleftrightarrow> Type n = Add \<or> Type n = Mul"
  by (cases "Type n"; simp add: IsCommutative_def)

text \<open>
  C9 at the kinds \<open>Fmax\<close> and \<open>Fmin\<close>. The test \<^verbatim>\<open>Type < NodeType::Sub\<close> takes the commutative
  kinds to be those declared before \<open>Sub\<close>. \<open>Fmax\<close> (\<^verbatim>\<open>1u << 5\<close>) and \<open>Fmin\<close> (\<^verbatim>\<open>1u << 6\<close>)
  are declared after it, so a node of either kind is not commutative for the code, while
  nodes of the kinds \<open>Add\<close> and \<open>Mul\<close> are.
\<close>

theorem IsCommutative_Fmax_Fmin:
  "Type (Node_of Fmax) = Fmax \<and> \<not> IsCommutative (Node_of Fmax)
   \<and> Type (Node_of Fmin) = Fmin \<and> \<not> IsCommutative (Node_of Fmin)
   \<and> Type (Node_of Add) = Add \<and> IsCommutative (Node_of Add)
   \<and> Type (Node_of Mul) = Mul \<and> IsCommutative (Node_of Mul)"
  by (simp add: IsCommutative_def Node_of_def Node_of_hash_def)

text \<open>
  C8 at the kind \<open>Dynamic\<close>. The constructor gives arity 1 to every kind below
  \<^verbatim>\<open>NodeType::Constant\<close> that is not below \<^verbatim>\<open>NodeType::Abs\<close>, and \<open>Dynamic\<close> is one of
  them: \<open>Node_of Dynamic\<close> has arity 1 and is no leaf. \<open>Constant\<close> and \<open>Variable\<close> nodes
  have arity 0.
\<close>

theorem Node_of_Dynamic_Arity:
  "Arity (Node_of Dynamic) = 1 \<and> \<not> IsLeaf (Node_of Dynamic)
   \<and> Arity (Node_of Constant) = 0 \<and> IsLeaf (Node_of Constant)
   \<and> Arity (Node_of Variable) = 0 \<and> IsLeaf (Node_of Variable)"
  by (simp add: Node_of_def Node_of_hash_def IsLeaf_def)

section \<open>Properties of the arithmetic kernels\<close>

lemma fold_right_cadd_length:
  "length u = L \<Longrightarrow> \<forall>c\<in>set xs. length c = L \<Longrightarrow> length (fold_right cadd u xs) = L"
  by (induction xs arbitrary: u) (auto simp: cadd_def)

lemma fold_right_cmul_length:
  "length u = L \<Longrightarrow> \<forall>c\<in>set xs. length c = L \<Longrightarrow> length (fold_right cmul u xs) = L"
  by (induction xs arbitrary: u) (auto simp: cmul_def)

lemma fold_right_cadd_nth:
  "length u = L \<Longrightarrow> \<forall>c\<in>set xs. length c = L \<Longrightarrow> k < L \<Longrightarrow>
     fold_right cadd u xs ! k = fold_right (+) (u ! k) (map (\<lambda>c. c ! k) xs)"
  by (induction xs arbitrary: u) (auto simp: cadd_def fold_right_cadd_length)

lemma fold_right_cmul_nth:
  "length u = L \<Longrightarrow> \<forall>c\<in>set xs. length c = L \<Longrightarrow> k < L \<Longrightarrow>
     fold_right cmul u xs ! k = fold_right (*) (u ! k) (map (\<lambda>c. c ! k) xs)"
  by (induction xs arbitrary: u) (auto simp: cmul_def fold_right_cmul_length)

lemma op_Sub_nth:
  assumes "\<forall>c\<in>set (u # b # bs). length c = L"
  shows "length (op Sub u (b # bs)) = L \<and>
         (\<forall>k<L. op Sub u (b # bs) ! k
                  = u ! k - fold_right (+) (b ! k) (map (\<lambda>c. c ! k) bs))"
  using assms fold_right_cadd_length [where u = b and xs = bs and L = L]
    fold_right_cadd_nth [where u = b and xs = bs and L = L]
  by (simp add: op_def csub_def)

lemma op_Div_nth:
  assumes "\<forall>c\<in>set (u # b # bs). length c = L"
  shows "length (op Div u (b # bs)) = L \<and>
         (\<forall>k<L. op Div u (b # bs) ! k
                  = u ! k / fold_right (*) (b ! k) (map (\<lambda>c. c ! k) bs))"
  using assms fold_right_cmul_length [where u = b and xs = bs and L = L]
    fold_right_cmul_nth [where u = b and xs = bs and L = L]
  by (simp add: op_def cdiv_def)

lemma nextSibling_Some:
  "nextSibling nodes i = Some j \<Longrightarrow> 0 \<le> i \<and> i < int (length nodes)"
  by (auto simp: nextSibling_def node_at_def bind_eq_Some_conv split: if_splits)

lemma col_Some: "0 \<le> i \<Longrightarrow> i < int (length m) \<Longrightarrow> col m i = Some (m ! nat i)"
  by (simp add: col_def)


lemma child_indices_bounds:
  "child_indices nodes i k = Some cs \<Longrightarrow>
     length cs = k \<and>
     (\<forall>c\<in>set cs. i + 1 - (\<Sum>c\<leftarrow>cs. int (Length (nodes ! nat c)) + 1) \<le> c - int (Length (nodes ! nat c)) \<and> c \<le> i \<and> 0 \<le> c \<and> c < int (length nodes))"
proof (induction k arbitrary: i cs)
  case 0
  then show ?case by simp
next
  case (Suc k)
  from Suc.prems obtain j js where j: "nextSibling nodes i = Some j"
    and js: "child_indices nodes j k = Some js" and cs: "cs = i # js"
    by (auto simp: bind_eq_Some_conv)
  from j have i: "0 \<le> i" "i < int (length nodes)" and jeq: "j = i - (int (Length (nodes ! nat i)) + 1)"
    by (auto simp: nextSibling_def node_at_def bind_eq_Some_conv split: if_splits)
  have nonneg: "0 \<le> (\<Sum>c\<leftarrow>js. int (Length (nodes ! nat c)) + 1)"
    by (rule sum_list_nonneg) auto
  from Suc.IH [OF js] show ?case
    using i jeq nonneg unfolding cs by (auto simp: )
qed

lemma child_indices_cols:
  assumes "child_indices nodes i k = Some cs" "length m = length nodes" "c \<in> set cs"
  shows "col m c = Some (m ! nat c)"
  using child_indices_bounds [OF assms(1)] assms(2,3) by (simp add: col_def)

lemma dispatch_loop_small:
  assumes "child_indices nodes i n = Some (c # cs)" "2 \<le> n" "n \<le> 5"
    "length m = length nodes" "p < length m"
  shows "dispatch_loop N nodes p m (int n) i continued
           = Some (m[p := op N (m ! nat c) (map (\<lambda>c. m ! nat c) cs)])"
proof -
  note cols = child_indices_cols [OF assms(1) assms(4)]
  consider "n = 2" | "n = 3" | "n = 4" | "n = 5"
    using assms(2,3) by linarith
  then show ?thesis
  proof cases
    case 1
    with assms(1) obtain c1 c2 where "cs = [c1]" "i = c" "nextSibling nodes c = Some c1"
      by (auto simp: numeral_2_eq_2 bind_eq_Some_conv)
    with 1 cols assms(5) show ?thesis
      by (subst dispatch_loop.simps) (simp add: set_col_def)
  next
    case 2
    with assms(1) obtain c1 c2 where "cs = [c1, c2]" "i = c" "nextSibling nodes c = Some c1"
      "nextSibling nodes c1 = Some c2"
      by (auto simp: numeral_3_eq_3 bind_eq_Some_conv)
    with 2 cols assms(5) show ?thesis
      by (subst dispatch_loop.simps) (simp add: set_col_def)
  next
    case 3
    with assms(1) obtain c1 c2 c3 where "cs = [c1, c2, c3]" "i = c" "nextSibling nodes c = Some c1"
      "nextSibling nodes c1 = Some c2" "nextSibling nodes c2 = Some c3"
      by (auto simp: eval_nat_numeral bind_eq_Some_conv)
    with 3 cols assms(5) show ?thesis
      by (subst dispatch_loop.simps) (simp add: set_col_def)
  next
    case 4
    with assms(1) obtain c1 c2 c3 c4 where "cs = [c1, c2, c3, c4]" "i = c" "nextSibling nodes c = Some c1"
      "nextSibling nodes c1 = Some c2" "nextSibling nodes c2 = Some c3" "nextSibling nodes c3 = Some c4"
      by (auto simp: eval_nat_numeral bind_eq_Some_conv)
    with 4 cols assms(5) show ?thesis
      by (subst dispatch_loop.simps) (simp add: set_col_def)
  qed
qed

lemma col_list_update:
  "col (m[p := x]) i = (if i = int p \<and> p < length m then Some x else col m i)"
  by (auto simp: col_def)

lemma dispatch_loop_six:
  assumes "child_indices nodes i 6 = Some [c0, c1, c2, c3, c4, c5]"
    "length m = length nodes" "p < length m" "i < int p"
  shows "dispatch_loop N nodes p m 6 i False
           = Some (m[p := op N (op N (m ! nat c0) [m ! nat c1, m ! nat c2, m ! nat c3, m ! nat c4]) [m ! nat c5]])"
proof -
  note cols = child_indices_cols [OF assms(1) assms(2)]
  from assms(1) obtain c6 where ns: "i = c0" "nextSibling nodes c0 = Some c1"
      "nextSibling nodes c1 = Some c2" "nextSibling nodes c2 = Some c3" "nextSibling nodes c3 = Some c4"
      "nextSibling nodes c4 = Some c5" "nextSibling nodes c5 = Some c6"
    by (auto simp: eval_nat_numeral bind_eq_Some_conv)
  have p: "c5 \<noteq> int p"
    using child_indices_bounds [OF assms(1)] assms(3,4) by auto
  show ?thesis
    using ns cols assms(3) p
    by (subst dispatch_loop.simps, simp add: set_col_def, subst dispatch_loop.simps)
      (simp add: set_col_def col_list_update)
qed


lemma dispatch_op_unfold:
  assumes "p < length nodes" "length m = length nodes"
  shows "dispatch_op N m nodes p
           = dispatch_loop N nodes p m (int (Arity (nodes ! p))) (int p - 1) False"
  using assms by (simp add: dispatch_op_def col_def node_at_def)

lemma dispatch_op_upto_six:
  assumes "length m = length nodes" "p < length nodes"
    "2 \<le> Arity (nodes ! p)" "Arity (nodes ! p) \<le> 6"
    "children nodes p = Some (c0 # cs)"
  shows "dispatch_op N m nodes p =
           Some (m[p := (if Arity (nodes ! p) = 6
                         then op N (op N (m ! nat c0) (map (\<lambda>c. m ! nat c) (butlast cs)))
                                [m ! nat (last cs)]
                         else op N (m ! nat c0) (map (\<lambda>c. m ! nat c) cs))])"
proof (cases "Arity (nodes ! p) = 6")
  case True
  with assms(5) have ci: "child_indices nodes (int p - 1) 6 = Some (c0 # cs)"
    by (simp add: children_def)
  from child_indices_bounds [OF ci] have "length cs = 5"
    by simp
  then obtain c1 c2 c3 c4 c5 where cs: "cs = [c1, c2, c3, c4, c5]"
    by (auto simp: eval_nat_numeral length_Suc_conv)
  show ?thesis
    using dispatch_loop_six [OF ci [unfolded cs], of m p N] assms(1,2) True
    by (simp add: dispatch_op_unfold cs)
next
  case False
  with assms(4) have le: "Arity (nodes ! p) \<le> 5"
    by simp
  from assms(5) have ci: "child_indices nodes (int p - 1) (Arity (nodes ! p)) = Some (c0 # cs)"
    by (simp add: children_def)
  show ?thesis
    using dispatch_loop_small [OF ci assms(3) le, of m p N False] assms(1,2) False
    by (simp add: dispatch_op_unfold)
qed

lemma const_buffer_nth:
  "i < length vs \<Longrightarrow> k < BATCHSIZE \<Longrightarrow> const_buffer vs ! i ! k = vs ! i"
  by (simp add: const_buffer_def)

lemma dispatch_op_Sub_Div_rows:
  assumes "length m = length nodes" "\<forall>c\<in>set m. length c = L" "p < length nodes"
    "2 \<le> Arity (nodes ! p)" "Arity (nodes ! p) \<le> 5"
    "children nodes p = Some (c0 # c1 # cs)"
  shows "(\<exists>r. dispatch_op Sub m nodes p = Some (m[p := r]) \<and> length r = L \<and>
            (\<forall>k<L. r ! k = m ! nat c0 ! k
                - fold_right (+) (m ! nat c1 ! k) (map (\<lambda>c. m ! nat c ! k) cs)))
       \<and> (\<exists>r. dispatch_op Div m nodes p = Some (m[p := r]) \<and> length r = L \<and>
            (\<forall>k<L. r ! k = m ! nat c0 ! k
                / fold_right (*) (m ! nat c1 ! k) (map (\<lambda>c. m ! nat c ! k) cs)))"
proof -
  from assms(6)
  have ci: "child_indices nodes (int p - 1) (Arity (nodes ! p)) = Some (c0 # c1 # cs)"
    by (simp add: children_def)
  from child_indices_bounds [OF ci] assms(1)
  have rng: "\<forall>c\<in>set (c0 # c1 # cs). nat c < length m"
    by auto
  define u where "u = m ! nat c0"
  define b where "b = m ! nat c1"
  define bs where "bs = map (\<lambda>c. m ! nat c) cs"
  have lens: "\<forall>c\<in>set (u # b # bs). length c = L"
    using rng assms(2) by (auto simp: u_def b_def bs_def)
  have rows: "map (\<lambda>c. m ! nat c ! k) cs = map (\<lambda>c. c ! k) bs" for k
    by (simp add: bs_def comp_def)
  have six: "Arity (nodes ! p) \<le> 6" "Arity (nodes ! p) \<noteq> 6"
    using assms(5) by simp_all
  have "dispatch_op N m nodes p = Some (m[p := op N u (b # bs)])" for N
    using dispatch_op_upto_six [OF assms(1,3,4) six(1) assms(6), of N] six(2)
    by (simp add: u_def b_def bs_def)
  then show ?thesis
    unfolding rows using op_Sub_nth [OF lens] op_Div_nth [OF lens]
    by (auto simp: u_def b_def)
qed

lemma dispatch_op_Sub_Div_rows_six:
  assumes "length m = length nodes" "\<forall>c\<in>set m. length c = L" "p < length nodes"
    "Arity (nodes ! p) = 6"
    "children nodes p = Some (c0 # c1 # cs)"
  shows "(\<exists>r. dispatch_op Sub m nodes p = Some (m[p := r]) \<and> length r = L \<and>
            (\<forall>k<L. r ! k = (m ! nat c0 ! k
                - fold_right (+) (m ! nat c1 ! k) (map (\<lambda>c. m ! nat c ! k) (butlast cs)))
                - m ! nat (last cs) ! k))
       \<and> (\<exists>r. dispatch_op Div m nodes p = Some (m[p := r]) \<and> length r = L \<and>
            (\<forall>k<L. r ! k = (m ! nat c0 ! k
                / fold_right (*) (m ! nat c1 ! k) (map (\<lambda>c. m ! nat c ! k) (butlast cs)))
                / m ! nat (last cs) ! k))"
proof -
  from assms(5)
  have ci: "child_indices nodes (int p - 1) (Arity (nodes ! p)) = Some (c0 # c1 # cs)"
    by (simp add: children_def)
  from child_indices_bounds [OF ci] assms(1,4)
  have len: "length cs = 4" and rng: "\<forall>c\<in>set (c0 # c1 # cs). nat c < length m"
    by auto
  from len have "cs \<noteq> []"
    by auto
  then obtain es e where cs: "cs = es @ [e]"
    by (metis append_butlast_last_id)
  define u where "u = m ! nat c0"
  define b where "b = m ! nat c1"
  define bs where "bs = map (\<lambda>c. m ! nat c) es"
  define l where "l = m ! nat e"
  have lens: "\<forall>c\<in>set (u # b # bs). length c = L" and l: "length l = L"
    using rng assms(2) by (auto simp: u_def b_def bs_def l_def cs)
  have rows: "map (\<lambda>c. m ! nat c ! k) es = map (\<lambda>c. c ! k) bs" for k
    by (simp add: bs_def comp_def)
  have ar: "2 \<le> Arity (nodes ! p)" "Arity (nodes ! p) \<le> 6"
    using assms(4) by simp_all
  have step: "dispatch_op N m nodes p = Some (m[p := op N (op N u (b # bs)) [l]])" for N
    using dispatch_op_upto_six [OF assms(1,3) ar assms(5), of N] assms(4)
    by (simp add: u_def b_def bs_def l_def cs butlast_append)
  have S: "length (op Sub (op Sub u (b # bs)) [l]) = L \<and>
      (\<forall>k<L. op Sub (op Sub u (b # bs)) [l] ! k
          = (u ! k - fold_right (+) (b ! k) (map (\<lambda>c. c ! k) bs)) - l ! k)"
    using op_Sub_nth [OF lens] op_Sub_nth [of "op Sub u (b # bs)" l "[]" L] l
    by simp
  have D: "length (op Div (op Div u (b # bs)) [l]) = L \<and>
      (\<forall>k<L. op Div (op Div u (b # bs)) [l] ! k
          = (u ! k / fold_right (*) (b ! k) (map (\<lambda>c. c ! k) bs)) / l ! k)"
    using op_Div_nth [OF lens] op_Div_nth [of "op Div u (b # bs)" l "[]" L] l
    by simp
  show ?thesis
    unfolding cs butlast_snoc last_snoc rows using step S D
    by (auto simp: u_def b_def l_def)
qed


lemma child_indices_sorted:
  "child_indices nodes i k = Some cs \<Longrightarrow>
     sorted_wrt (\<lambda>c d. d < c - int (Length (nodes ! nat c))) cs"
proof (induction k arbitrary: i cs)
  case 0
  then show ?case by simp
next
  case (Suc k)
  from Suc.prems obtain j js where j: "nextSibling nodes i = Some j"
    and js: "child_indices nodes j k = Some js" and cs: "cs = i # js"
    by (auto simp: bind_eq_Some_conv)
  from j have jeq: "j = i - (int (Length (nodes ! nat i)) + 1)"
    by (auto simp: nextSibling_def node_at_def bind_eq_Some_conv split: if_splits)
  from child_indices_bounds [OF js] have "\<forall>d\<in>set js. d \<le> j"
    by simp
  with jeq have "\<forall>d\<in>set js. d < i - int (Length (nodes ! nat i))"
    by auto
  with Suc.IH [OF js] show ?case
    by (simp add: cs)
qed

lemma sorted_wrt_less_distinct:
  "sorted_wrt (\<lambda>c d. d < c - int (f c)) cs \<Longrightarrow> distinct cs"
  by (induction cs) auto

text \<open>
  C6. At a node \<open>p\<close> whose \<open>Length\<close> is the sum of its children's \<open>Length + 1\<close>, the
  indices of the sibling recurrence are as many as the arity, lie in
  \<open>[p - Length p, p - 1]\<close>, and are pairwise different: each index lies to the left of the
  whole subtree of every earlier one.
\<close>

theorem sibling_recurrence:
  assumes "consistent_at nodes p"
  shows "\<exists>cs. children nodes p = Some cs \<and> length cs = Arity (nodes ! p) \<and>
           (\<forall>c\<in>set cs. int p - int (Length (nodes ! p)) \<le> c \<and> c \<le> int p - 1) \<and>
           distinct cs \<and>
           sorted_wrt (\<lambda>c d. d < c - int (Length (nodes ! nat c))) cs"
proof -
  from assms obtain cs where cs: "children nodes p = Some cs"
    and sum: "(\<Sum>c\<leftarrow>cs. Length (nodes ! nat c) + 1) = Length (nodes ! p)"
    by (auto simp: consistent_at_def split: option.splits)
  from cs have ci: "child_indices nodes (int p - 1) (Arity (nodes ! p)) = Some cs"
    by (simp add: children_def)
  have "int (\<Sum>c\<leftarrow>cs. Length (nodes ! nat c) + 1) = (\<Sum>c\<leftarrow>cs. int (Length (nodes ! nat c)) + 1)"
    by (induction cs) auto
  with sum have sum': "(\<Sum>c\<leftarrow>cs. int (Length (nodes ! nat c)) + 1) = int (Length (nodes ! p))"
    by simp
  from child_indices_bounds [OF ci] have "length cs = Arity (nodes ! p)"
    and "\<forall>c\<in>set cs. int p - int (Length (nodes ! p)) \<le> c \<and> c \<le> int p - 1"
    unfolding sum' by auto
  moreover from child_indices_sorted [OF ci]
  have srt: "sorted_wrt (\<lambda>c d. d < c - int (Length (nodes ! nat c))) cs" .
  moreover from srt have "distinct cs"
    by (rule sorted_wrt_less_distinct)
  ultimately show ?thesis
    using cs by blast
qed


theorem sibling_recurrence_witness:
  "consistent_at example_tree 4 \<and>
   (\<exists>cs. children example_tree 4 = Some cs \<and> length cs = Arity (example_tree ! 4) \<and>
      (\<forall>c\<in>set cs. int 4 - int (Length (example_tree ! 4)) \<le> c \<and> c \<le> int 4 - 1) \<and>
      distinct cs \<and>
      sorted_wrt (\<lambda>c d. d < c - int (Length (example_tree ! nat c))) cs)"
proof (rule conjI)
  show c4: "consistent_at example_tree 4"
    by code_simp
  then show "\<exists>cs. children example_tree 4 = Some cs \<and> length cs = Arity (example_tree ! 4) \<and>
      (\<forall>c\<in>set cs. int 4 - int (Length (example_tree ! 4)) \<le> c \<and> c \<le> int 4 - 1) \<and>
      distinct cs \<and>
      sorted_wrt (\<lambda>c d. d < c - int (Length (example_tree ! nat c))) cs"
    by (rule sibling_recurrence)
qed

text \<open>
  C1 at an \<open>Add\<close> node of arity 7. After the first five children the loop arrives at case 2
  with \<^verbatim>\<open>continued\<close> set, and case 2 assigns the sum of the last two children alone: over
  the constants \<open>1, ..., 7\<close> the root column holds \<open>2 + 1 = 3\<close> in every row, where the sum
  of the seven children is \<open>28\<close>. With six children the remaining one is added to the
  first five (case 1 reads \<^verbatim>\<open>continued\<close>), and the root holds \<open>21\<close>. An
  interpreter whose table has \<open>dispatch_op\<close> for \<open>Add\<close> returns \<open>3\<close> for every row of the
  tree of seven constants.
\<close>

theorem dispatch_op_Add_arity_7:
  "dispatch_op Add (const_buffer [1, 2, 3, 4, 5, 6, 7, 0]) (flat_tree Add [1, 2, 3, 4, 5, 6, 7]) 7
     = Some (const_buffer [1, 2, 3, 4, 5, 6, 7, 3])
   \<and> sum_list [1, 2, 3, 4, 5, 6, 7] = (28 :: Scalar)
   \<and> dispatch_op Add (const_buffer [1, 2, 3, 4, 5, 6, 0]) (flat_tree Add [1, 2, 3, 4, 5, 6]) 6
     = Some (const_buffer [1, 2, 3, 4, 5, 6, 21])
   \<and> Evaluate arith_table BATCHSIZE (\<lambda>i k. 0) (flat_tree Add [1, 2, 3, 4, 5, 6, 7]) xy_data
       \<lparr>Start = 0, End = 3\<rparr> None = Some [3, 3, 3]"
  by code_simp

section \<open>Properties of the derivative calculator\<close>

lemma length_write_at:
  "off + length ys \<le> length xs \<Longrightarrow> length (write_at xs off ys) = length xs"
  by (simp add: write_at_def)

lemma nth_write_at:
  "off + length ys \<le> length xs \<Longrightarrow> j < length xs \<Longrightarrow>
     write_at xs off ys ! j = (if off \<le> j \<and> j < off + length ys then ys ! (j - off) else xs ! j)"
  by (auto simp: write_at_def nth_append)

lemma col_index: 
  assumes "r < (n::nat)"
  shows "i * n \<le> c * n + r \<and> c * n + r < i * n + n \<longleftrightarrow> c = i"
proof (cases c i rule: linorder_cases)
  case less
  then have "Suc c * n \<le> i * n"
    by (intro mult_le_mono1) simp
  with assms less show ?thesis by simp
next
  case equal
  with assms show ?thesis by simp
next
  case greater
  then have "Suc i * n \<le> c * n"
    by (intro mult_le_mono1) simp
  with assms greater show ?thesis by simp
qed

lemma fill_col_fold:
  assumes "\<forall>i\<in>set is. i < P" "length jac = nrows * P" "length outputs = nrows"
  shows "length (fold (\<lambda>i j. write_at j (i * nrows) (map (\<lambda>jet. v jet ! (i - s)) outputs)) is jac)
           = nrows * P"
    and "r < nrows \<Longrightarrow> c < P \<Longrightarrow>
         fold (\<lambda>i j. write_at j (i * nrows) (map (\<lambda>jet. v jet ! (i - s)) outputs)) is jac
           ! (c * nrows + r)
         = (if c \<in> set is then v (outputs ! r) ! (c - s) else jac ! (c * nrows + r))"
  using assms
proof (induction "is" arbitrary: jac)
  case Nil
  { case 1 then show ?case by simp }
  { case 2 then show ?case by simp }
next
  case (Cons i "is")
  { case 1
    let ?w = "write_at jac (i * nrows) (map (\<lambda>jet. v jet ! (i - s)) outputs)"
    from 1 have i: "i < P" by simp
    then have "Suc i * nrows \<le> P * nrows"
      by (intro mult_le_mono1) simp
    with 1 have fit: "i * nrows + length (map (\<lambda>jet. v jet ! (i - s)) outputs) \<le> length jac"
      by (simp add: mult.commute)
    from length_write_at [OF fit] have len: "length ?w = nrows * P"
      using 1(2) by simp
    from Cons.IH(1) [of ?w] 1 len show ?case by simp }
  { case 2
    let ?w = "write_at jac (i * nrows) (map (\<lambda>jet. v jet ! (i - s)) outputs)"
    from 2 have i: "i < P" by simp
    then have "Suc i * nrows \<le> P * nrows"
      by (intro mult_le_mono1) simp
    with 2 have fit: "i * nrows + length (map (\<lambda>jet. v jet ! (i - s)) outputs) \<le> length jac"
      by (simp add: mult.commute)
    from length_write_at [OF fit] have len: "length ?w = nrows * P"
      using 2(4) by simp
    from 2 have "Suc c * nrows \<le> P * nrows"
      by (intro mult_le_mono1) simp
    with 2 have idx: "c * nrows + r < length jac"
      by (simp add: mult.commute)
    have w: "?w ! (c * nrows + r) = (if c = i then v (outputs ! r) ! (c - s) else jac ! (c * nrows + r))"
      using nth_write_at [OF fit idx] col_index [of r nrows i c] 2 by auto
    from Cons.IH(2) [of ?w] 2 len
    have "fold (\<lambda>i j. write_at j (i * nrows) (map (\<lambda>jet. v jet ! (i - s)) outputs)) is ?w
           ! (c * nrows + r)
         = (if c \<in> set is then v (outputs ! r) ! (c - s) else ?w ! (c * nrows + r))"
      by simp
    also have "\<dots> = (if c \<in> set (i # is) then v (outputs ! r) ! (c - s) else jac ! (c * nrows + r))"
      unfolding w by auto
    finally show ?case
      by simp }
qed


lemma row_index:
  assumes "c < (P::nat)" "s \<le> r'" "r' \<le> P"
  shows "i * P + s \<le> r * P + c \<and> r * P + c < i * P + s + (r' - s) \<longleftrightarrow> r = i \<and> s \<le> c \<and> c < r'"
proof (cases r i rule: linorder_cases)
  case less
  then have "Suc r * P \<le> i * P"
    by (intro mult_le_mono1) simp
  with assms less show ?thesis by simp
next
  case equal
  with assms show ?thesis by auto
next
  case greater
  then have "Suc i * P \<le> r * P"
    by (intro mult_le_mono1) simp
  with assms greater show ?thesis by simp
qed

lemma fill_row_fold:
  assumes "\<forall>i\<in>set is. i < nrows" "length jac = nrows * P" "s \<le> r'" "r' \<le> P"
  shows "length (fold (\<lambda>i j. write_at j (i * P + s) (map (\<lambda>k. v (outputs ! i) ! k) [0..<r' - s]))
                   is jac) = nrows * P"
    and "r < nrows \<Longrightarrow> c < P \<Longrightarrow>
         fold (\<lambda>i j. write_at j (i * P + s) (map (\<lambda>k. v (outputs ! i) ! k) [0..<r' - s])) is jac
           ! (r * P + c)
         = (if r \<in> set is \<and> s \<le> c \<and> c < r' then v (outputs ! r) ! (c - s)
            else jac ! (r * P + c))"
  using assms
proof (induction "is" arbitrary: jac)
  case Nil
  { case 1 then show ?case by simp }
  { case 2 then show ?case by simp }
next
  case (Cons i "is")
  { case 1
    let ?ys = "map (\<lambda>k. v (outputs ! i) ! k) [0..<r' - s]"
    let ?w = "write_at jac (i * P + s) ?ys"
    from 1 have i: "i < nrows" by simp
    then have "Suc i * P \<le> nrows * P"
      by (intro mult_le_mono1) simp
    with 1 have fit: "i * P + s + length ?ys \<le> length jac"
      by simp
    from length_write_at [OF fit] have len: "length ?w = nrows * P"
      using 1(2) by simp
    from Cons.IH(1) [of ?w] 1 len show ?case by simp }
  { case 2
    let ?ys = "map (\<lambda>k. v (outputs ! i) ! k) [0..<r' - s]"
    let ?w = "write_at jac (i * P + s) ?ys"
    from 2 have i: "i < nrows" by simp
    then have "Suc i * P \<le> nrows * P"
      by (intro mult_le_mono1) simp
    with 2 have fit: "i * P + s + length ?ys \<le> length jac"
      by simp
    from length_write_at [OF fit] have len: "length ?w = nrows * P"
      using 2(4) by simp
    from 2 have "Suc r * P \<le> nrows * P"
      by (intro mult_le_mono1) simp
    with 2 have idx: "r * P + c < length jac"
      by simp
    have w: "?w ! (r * P + c) = (if r = i \<and> s \<le> c \<and> c < r' then v (outputs ! r) ! (c - s)
                                 else jac ! (r * P + c))"
      using nth_write_at [OF fit idx] row_index [of c P s r' i r] 2 by auto
    from Cons.IH(2) [of ?w] 2 len
    have "fold (\<lambda>i j. write_at j (i * P + s) (map (\<lambda>k. v (outputs ! i) ! k) [0..<r' - s])) is ?w
           ! (r * P + c)
         = (if r \<in> set is \<and> s \<le> c \<and> c < r' then v (outputs ! r) ! (c - s)
            else ?w ! (r * P + c))"
      by simp
    also have "\<dots> = (if r \<in> set (i # is) \<and> s \<le> c \<and> c < r' then v (outputs ! r) ! (c - s)
                       else jac ! (r * P + c))"
      unfolding w by auto
    finally show ?case
      by simp }
qed

lemma fill_entry:
  assumes "length jac = nrows * P" "length outputs = nrows" "s \<le> r'" "r' \<le> P"
    "int nrows < 2 ^ 31"
  shows "\<exists>jac'. fill order nrows P outputs s r' jac = Some jac' \<and> length jac' = nrows * P
           \<and> (\<forall>r<nrows. \<forall>c<P. entry order nrows P jac' r c
                  = (if s \<le> c \<and> c < r' then v (outputs ! r) ! (c - s)
                     else entry order nrows P jac r c))"
proof (cases order)
  case ColMajor
  define jac' where
    "jac' = fold (\<lambda>i j. write_at j (i * nrows) (map (\<lambda>jet. v jet ! (i - s)) outputs)) [s..<r'] jac"
  have cols: "\<forall>i\<in>set [s..<r']. i < P"
    using assms by auto
  have "fill order nrows P outputs s r' jac = Some jac'"
    by (simp add: ColMajor fill_def jac'_def)
  moreover have "length jac' = nrows * P"
    unfolding jac'_def by (rule fill_col_fold(1) [OF cols assms(1,2)])
  moreover have "entry order nrows P jac' r c
                  = (if s \<le> c \<and> c < r' then v (outputs ! r) ! (c - s)
                     else entry order nrows P jac r c)" if "r < nrows" "c < P" for r c
    using fill_col_fold(2) [where s = s, OF cols assms(1,2) that] that
    by (simp add: ColMajor entry_def jac'_def)
  ultimately show ?thesis
    by blast
next
  case RowMajor
  define jac' where
    "jac' = fold (\<lambda>i j. write_at j (i * P + s) (map (\<lambda>k. v (outputs ! i) ! k) [0..<r' - s]))
              [0..<length outputs] jac"
  have rows: "\<forall>i\<in>set [0..<length outputs]. i < nrows"
    using assms by auto
  have "\<not> 2 ^ 31 \<le> int (length outputs)"
    using assms(2,5) by simp
  then have "fill order nrows P outputs s r' jac = Some jac'"
    by (simp add: RowMajor fill_def jac'_def)
  moreover have "length jac' = nrows * P"
    unfolding jac'_def by (rule fill_row_fold(1) [OF rows assms(1,3,4)])
  moreover have "entry order nrows P jac' r c
                  = (if s \<le> c \<and> c < r' then v (outputs ! r) ! (c - s)
                     else entry order nrows P jac r c)" if "r < nrows" "c < P" for r c
    using fill_row_fold(2) [where outputs = outputs, OF rows assms(1,3,4) that] that assms(2)
    by (simp add: RowMajor entry_def jac'_def)
  ultimately show ?thesis
    by blast
qed

lemma length_seed: "length (seed inputs s r) = length inputs"
proof -
  have "length (fold (\<lambda>i inp. inp[i := g i inp]) is inputs) = length inputs"
    for g :: "nat \<Rightarrow> Dual list \<Rightarrow> Dual" and "is" inputs
    by (induction "is" arbitrary: inputs) auto
  then show ?thesis
    by (simp add: seed_def)
qed

lemma sweep_orders:
  assumes small: "int nrows < 2 ^ 31"
    and "0 < D" "length jc = nrows * length inputs" "length jr = nrows * length inputs"
    "\<forall>r<nrows. \<forall>c<length inputs. entry ColMajor nrows (length inputs) jc r c
                                   = entry RowMajor nrows (length inputs) jr r c"
  shows "\<exists>jc' jr'. sweep interp ColMajor nrows D inputs s jc = Some jc'
           \<and> sweep interp RowMajor nrows D inputs s jr = Some jr'
           \<and> length jc' = nrows * length inputs \<and> length jr' = nrows * length inputs
           \<and> (\<forall>r<nrows. \<forall>c<length inputs. entry ColMajor nrows (length inputs) jc' r c
                                   = entry RowMajor nrows (length inputs) jr' r c)"
  using assms(2-)
proof (induction "length inputs - s" arbitrary: s inputs jc jr rule: less_induct)
  case less
  show ?case
  proof (cases "s < length inputs")
    case False
    with less.prems show ?thesis
      by (simp add: sweep.simps)
  next
    case True
    define P where "P = length inputs"
    define r' where "r' = min P (s + D)"
    define inputs' where "inputs' = seed inputs s r'"
    define outputs where "outputs = map (interp inputs') [0..<nrows]"
    have P': "length inputs' = P"
      by (simp add: inputs'_def length_seed P_def)
    have bounds: "s \<le> r'" "r' \<le> P" "length outputs = nrows"
      using True by (simp_all add: r'_def outputs_def P_def)
    have lenc: "length jc = nrows * P" and lenr: "length jr = nrows * P"
      using less.prems by (simp_all add: P_def)
    from fill_entry [where order = ColMajor, OF lenc bounds(3,1,2) small]
    obtain jc1 where fc: "fill ColMajor nrows P outputs s r' jc = Some jc1"
      "length jc1 = nrows * P"
      "\<forall>r<nrows. \<forall>c<P. entry ColMajor nrows P jc1 r c
          = (if s \<le> c \<and> c < r' then v (outputs ! r) ! (c - s) else entry ColMajor nrows P jc r c)"
      by blast
    from fill_entry [where order = RowMajor, OF lenr bounds(3,1,2) small]
    obtain jr1 where fr: "fill RowMajor nrows P outputs s r' jr = Some jr1"
      "length jr1 = nrows * P"
      "\<forall>r<nrows. \<forall>c<P. entry RowMajor nrows P jr1 r c
          = (if s \<le> c \<and> c < r' then v (outputs ! r) ! (c - s) else entry RowMajor nrows P jr r c)"
      by blast
    have step: "sweep interp order nrows D inputs s j
                 = sweep interp order nrows D inputs' (s + D) j'"
      if "fill order nrows P outputs s r' j = Some j'" for order j j'
      using True less.prems(1) that
      by (subst sweep.simps) (simp add: Let_def P_def r'_def inputs'_def outputs_def)
    have same: "\<forall>r<nrows. \<forall>c<P. entry ColMajor nrows P jc1 r c = entry RowMajor nrows P jr1 r c"
      using fc(3) fr(3) less.prems(4) by (simp add: P_def)
    have "length inputs' - (s + D) < length inputs - s"
      using True less.prems(1) by (simp add: P' P_def [symmetric])
    from less.hyps [OF this less.prems(1), of jc1 jr1]
    show ?thesis
      unfolding step [OF fc(1)] step [OF fr(1)] P' using fc(2) fr(2) same
      by (simp add: P_def [symmetric])
  qed
qed


text \<open>
  C7. For every interpreter, dual dimension \<open>D > 0\<close>, coefficient vector and number of
  rows within the 32-bit counters of the calculator (\<open>P + D \<le> 2^32\<close> for the unsigned
  counter of the chunks, fewer than \<open>2^31\<close> rows for the \<^verbatim>\<open>int\<close> counter of the row-major
  copy), the calculator returns with either storage order, and the column-major and the
  row-major Jacobian are the same matrix.
\<close>

theorem jacobian_storage_order:
  assumes "0 < D" "int (length coeff) + int D \<le> 2 ^ 32" "int nrows < 2 ^ 31"
  shows "\<exists>jc jr. DerivativeCalculator interp ColMajor D coeff nrows = Some jc
           \<and> DerivativeCalculator interp RowMajor D coeff nrows = Some jr
           \<and> length jc = nrows * length coeff \<and> length jr = nrows * length coeff
           \<and> matrix_of ColMajor nrows (length coeff) jc = matrix_of RowMajor nrows (length coeff) jr"
proof -
  let ?P = "length coeff"
  let ?z = "replicate (nrows * ?P) (0 :: Scalar)"
  have P: "length (initial_inputs D coeff) = ?P"
    by (simp add: initial_inputs_def)
  have zero: "entry order nrows ?P ?z r c = 0" if "r < nrows" "c < ?P" for order r c
  proof -
    from that have "Suc c * nrows \<le> ?P * nrows" "Suc r * ?P \<le> nrows * ?P"
      by (intro mult_le_mono1; simp)+
    with that have "c * nrows + r < nrows * ?P" "r * ?P + c < nrows * ?P"
      by (simp_all add: mult.commute)
    then show ?thesis
      by (cases order) (simp_all add: entry_def)
  qed
  have "\<exists>jc' jr'. sweep interp ColMajor nrows D (initial_inputs D coeff) 0 ?z = Some jc'
           \<and> sweep interp RowMajor nrows D (initial_inputs D coeff) 0 ?z = Some jr'
           \<and> length jc' = nrows * length (initial_inputs D coeff)
           \<and> length jr' = nrows * length (initial_inputs D coeff)
           \<and> (\<forall>r<nrows. \<forall>c<length (initial_inputs D coeff).
                 entry ColMajor nrows (length (initial_inputs D coeff)) jc' r c
                 = entry RowMajor nrows (length (initial_inputs D coeff)) jr' r c)"
    by (rule sweep_orders) (use assms in \<open>simp_all add: P zero\<close>)
  then obtain jc jr where
    "sweep interp ColMajor nrows D (initial_inputs D coeff) 0 ?z = Some jc"
    "sweep interp RowMajor nrows D (initial_inputs D coeff) 0 ?z = Some jr"
    "length jc = nrows * ?P" "length jr = nrows * ?P"
    "\<forall>r<nrows. \<forall>c<?P. entry ColMajor nrows ?P jc r c = entry RowMajor nrows ?P jr r c"
    unfolding P by blast
  with assms(2) show ?thesis
    by (simp add: DerivativeCalculator_def matrix_of_def)
qed

theorem jacobian_storage_order_witness:
  "(0::nat) < 4 \<and> int (length [2, 3 :: Scalar]) + int 4 \<le> 2 ^ 32 \<and> int 3 < 2 ^ 31
   \<and> DerivativeCalculator (linear_interp [1, 2, 3]) ColMajor 4 [2, 3] 3 = Some [1, 2, 3, 1, 1, 1]
   \<and> DerivativeCalculator (linear_interp [1, 2, 3]) RowMajor 4 [2, 3] 3 = Some [1, 1, 2, 1, 3, 1]
   \<and> matrix_of ColMajor 3 2 [1, 2, 3, 1, 1, 1] = matrix_of RowMajor 3 2 [1, 1, 2, 1, 3, 1]
   \<and> matrix_of RowMajor 3 2 [1, 1, 2, 1, 3, 1] = [[1, 1], [2, 1], [3, 1]]"
proof -
  have h: "(0::nat) < 4" "int (length [2, 3 :: Scalar]) + int 4 \<le> 2 ^ 32" "int 3 < 2 ^ 31"
    by simp_all
  have c: "DerivativeCalculator (linear_interp [1, 2, 3]) ColMajor 4 [2, 3] 3
             = Some [1, 2, 3, 1, 1, 1]"
    by code_simp
  have r: "DerivativeCalculator (linear_interp [1, 2, 3]) RowMajor 4 [2, 3] 3
             = Some [1, 1, 2, 1, 3, 1]"
    by code_simp
  have m: "matrix_of RowMajor 3 2 [1, 1, 2, 1, 3, 1] = [[1, 1], [2, 1], [3, 1]]"
    by code_simp
  from jacobian_storage_order [OF h, where interp = "linear_interp [1, 2, 3]"] obtain jc jr where
    jc: "DerivativeCalculator (linear_interp [1, 2, 3]) ColMajor 4 [2, 3] 3 = Some jc" and
    jr: "DerivativeCalculator (linear_interp [1, 2, 3]) RowMajor 4 [2, 3] 3 = Some jr" and
    eq: "matrix_of ColMajor 3 (length [2, 3 :: Scalar]) jc
           = matrix_of RowMajor 3 (length [2, 3 :: Scalar]) jr"
    by blast
  from jc c have "jc = [1, 2, 3, 1, 1, 1]"
    by simp
  moreover from jr r have "jr = [1, 1, 2, 1, 3, 1]"
    by simp
  moreover have "length [2, 3 :: Scalar] = 2"
    by simp
  ultimately have "matrix_of ColMajor 3 2 [1, 2, 3, 1, 1, 1]
                     = matrix_of RowMajor 3 2 [1, 1, 2, 1, 3, 1]"
    using eq by (simp only:)
  with h c r m show ?thesis
    by simp
qed

text \<open>
  C2 at five parameters and dual dimension 4. The seeds of the first chunk are never
  cleared: in the second sweep parameter 0 still has \<open>v[0] = 1\<close>, like parameter 4, the
  only one of the chunk. For the tree that adds its five parameters, whose partial
  derivatives are all 1, the lane 0 of the second sweep is \<open>2\<close>, and that is what the
  Jacobian gets in column 4.
\<close>

theorem DerivativeCalculator_stale_seed:
  "seed (seed (initial_inputs 4 [1, 2, 3, 4, 5]) 0 4) 4 5
     = [\<lparr>a = 1, v = [1, 0, 0, 0]\<rparr>, \<lparr>a = 2, v = [0, 1, 0, 0]\<rparr>, \<lparr>a = 3, v = [0, 0, 1, 0]\<rparr>,
        \<lparr>a = 4, v = [0, 0, 0, 1]\<rparr>, \<lparr>a = 5, v = [1, 0, 0, 0]\<rparr>]
   \<and> DerivativeCalculator sum_interp ColMajor 4 [1, 2, 3, 4, 5] 1 = Some [1, 1, 1, 1, 2]
   \<and> DerivativeCalculator sum_interp RowMajor 4 [1, 2, 3, 4, 5] 1 = Some [1, 1, 1, 1, 2]"
  by code_simp

section \<open>Properties of the primal interpreter\<close>

lemma length_params_of: "length (params_of parameters ns idx) = length ns"
  by (induction ns arbitrary: idx) (auto split: option.splits)

lemma length_row_vals: "length (row_vals ft dataset g nodes ps r i) = i"
  by (induction i) (auto simp: Let_def)

lemma take_row_vals:
  "j \<le> i \<Longrightarrow> take j (row_vals ft dataset g nodes ps r i) = row_vals ft dataset g nodes ps r j"
proof (induction i)
  case 0
  then show ?case by simp
next
  case (Suc i)
  show ?case
  proof (cases "j = Suc i")
    case True
    then show ?thesis
      by (simp add: length_row_vals del: row_vals.simps)
  next
    case False
    with Suc.prems have "j \<le> i" by simp
    with Suc.IH show ?thesis
      by (simp add: Let_def length_row_vals)
  qed
qed

lemma setup_loop_Some:
  assumes "\<forall>n\<in>set ns. IsVariable n \<longrightarrow> (\<exists>c. dataset (HashValue n) = Some c \<and> End rng \<le> length c)"
    "Start rng \<le> End rng"
    "\<forall>ps. parameters = Some ps \<longrightarrow> idx + length (filter Optimize ns) \<le> length ps"
    "i + length ns \<le> length m"
  shows "\<exists>m'. setup_loop ft dataset rng parameters S ns i idx m
                 = Some (meta_of ft dataset rng ns (params_of parameters ns idx), m')
              \<and> length m' = length m
              \<and> (\<forall>j<length m. m' ! j =
                    (if i \<le> j \<and> j < i + length ns \<and> IsConstant (ns ! (j - i))
                     then replicate S (params_of parameters ns idx ! (j - i)) else m ! j))"
  using assms
proof (induction ns arbitrary: i idx m)
  case Nil
  then show ?case
    by (auto simp: meta_of_def)
next
  case (Cons n ns)
  define vals where "vals = (if IsVariable n
      then take (Size rng) (drop (Start rng) (the (dataset (HashValue n)))) else [])"
  have vals: "(if IsVariable n
                then do { c \<leftarrow> dataset (HashValue n); subspan c (Start rng) (Size rng) }
                else Some []) = Some vals"
    using Cons.prems(1,2) by (auto simp: vals_def subspan_def Size_def)
  define param where "param = hd (params_of parameters (n # ns) idx)"
  define idx' where "idx' = (if parameters \<noteq> None \<and> Optimize n then idx + 1 else idx)"
  have par: "(case parameters of
                Some ps \<Rightarrow>
                  if Optimize n
                  then (if idx < length ps then Some (ps ! idx, idx + 1) else None)
                  else Some (Value n, idx)
              | None \<Rightarrow> Some (Value n, idx)) = Some (param, idx')"
    using Cons.prems(3) by (auto simp: param_def idx'_def split: option.splits)
  have pof: "params_of parameters (n # ns) idx = param # params_of parameters ns idx'"
    by (auto simp: param_def idx'_def split: option.splits)
  define m1 where "m1 = (if IsConstant n then m[i := replicate S param] else m)"
  have m1: "(if IsConstant n then set_col m i (replicate S param) else Some m) = Some m1"
    using Cons.prems(4) by (simp add: m1_def set_col_def)
  have len1: "length m1 = length m"
    by (simp add: m1_def)
  have "\<exists>m'. setup_loop ft dataset rng parameters S ns (i + 1) idx' m1
                 = Some (meta_of ft dataset rng ns (params_of parameters ns idx'), m')
              \<and> length m' = length m1
              \<and> (\<forall>j<length m1. m' ! j =
                    (if i + 1 \<le> j \<and> j < i + 1 + length ns \<and> IsConstant (ns ! (j - (i + 1)))
                     then replicate S (params_of parameters ns idx' ! (j - (i + 1))) else m1 ! j))"
  proof (rule Cons.IH)
    show "\<forall>n\<in>set ns. IsVariable n \<longrightarrow> (\<exists>c. dataset (HashValue n) = Some c \<and> End rng \<le> length c)"
      using Cons.prems(1) by simp
    show "Start rng \<le> End rng" by fact
    show "\<forall>ps. parameters = Some ps \<longrightarrow> idx' + length (filter Optimize ns) \<le> length ps"
      using Cons.prems(3) by (auto simp: idx'_def)
    show "i + 1 + length ns \<le> length m1"
      using Cons.prems(4) by (simp add: len1)
  qed
  then obtain m' where
    run: "setup_loop ft dataset rng parameters S ns (i + 1) idx' m1
            = Some (meta_of ft dataset rng ns (params_of parameters ns idx'), m')"
    and len: "length m' = length m1"
    and cols: "\<forall>j<length m1. m' ! j =
                    (if i + 1 \<le> j \<and> j < i + 1 + length ns \<and> IsConstant (ns ! (j - (i + 1)))
                     then replicate S (params_of parameters ns idx' ! (j - (i + 1))) else m1 ! j)"
    by blast
  have "setup_loop ft dataset rng parameters S (n # ns) i idx m
          = Some (meta_of ft dataset rng (n # ns) (params_of parameters (n # ns) idx), m')"
    apply (subst setup_loop.simps)
    apply (subst vals)
    apply (subst par)
    apply (simp only: Option.bind.bind_lunit prod.case)
    apply (subst m1)
    apply (simp add: run [simplified] pof meta_of_def vals_def del: params_of.simps)
    done
  moreover have "m' ! j =
       (if i \<le> j \<and> j < i + length (n # ns) \<and> IsConstant ((n # ns) ! (j - i))
        then replicate S (params_of parameters (n # ns) idx ! (j - i)) else m ! j)"
    if "j < length m" for j
  proof (cases "j = i")
    case True
    with cols that len1 have "m' ! j = m1 ! j"
      by simp
    with True that show ?thesis
      by (simp add: m1_def pof del: params_of.simps)
  next
    case False
    with cols that len1 show ?thesis
      by (cases "j < i") (auto simp: pof m1_def nth_Cons' Suc_diff_Suc simp del: params_of.simps)
  qed
  ultimately show ?case
    using len len1 by simp
qed


lemma row_vals_nth:
  assumes "i < n"
  shows "row_vals ft dataset g nodes ps r n ! i =
           (if IsVariable (nodes ! i)
            then ps ! i * the (dataset (HashValue (nodes ! i))) ! r
            else if ft (HashValue (nodes ! i)) \<noteq> None
                 then g i r (row_vals ft dataset g nodes ps r i)
                 else ps ! i)"
proof -
  from assms have "Suc i \<le> n" by simp
  then have "take (Suc i) (row_vals ft dataset g nodes ps r n) = row_vals ft dataset g nodes ps r (Suc i)"
    by (rule take_row_vals)
  then have "row_vals ft dataset g nodes ps r n ! i = row_vals ft dataset g nodes ps r (Suc i) ! i"
    by (metis lessI nth_take)
  then show ?thesis
    by (simp add: Let_def nth_append length_row_vals)
qed

lemma meta_of_nth:
  assumes "i < length ns" "length ps = length ns"
  shows "meta_of ft dataset rng ns ps ! i =
           (ps ! i, (if IsVariable (ns ! i)
                     then take (Size rng) (drop (Start rng) (the (dataset (HashValue (ns ! i)))))
                     else []),
            ft (HashValue (ns ! i)))"
  using assms by (simp add: meta_of_def)

lemma node_step_inv:
  assumes kr: "kernels_rowwise ft S nodes g"
    and vars: "\<forall>n\<in>set nodes. IsVariable n \<longrightarrow>
                 (\<exists>c. dataset (HashValue n) = Some c \<and> End rng \<le> length c)"
    and kinds: "\<forall>n\<in>set nodes. IsVariable n \<or> IsConstant n \<or> ft (HashValue n) \<noteq> None"
    and P: "length ps = length nodes"
    and j: "j < length nodes"
    and blk: "row + rem \<le> Size rng" "rem \<le> S" "Start rng \<le> End rng"
    and shape: "length m = length nodes" "\<forall>c\<in>set m. length c = S"
    and cst: "\<forall>i<length nodes. \<not> IsVariable (nodes ! i) \<and> ft (HashValue (nodes ! i)) = None
                   \<longrightarrow> m ! i = replicate S (ps ! i)"
    and rows: "\<forall>i<j. \<forall>k<rem. m ! i ! k
                   = row_vals ft dataset g nodes ps (Start rng + row + k) (length nodes) ! i"
  shows "\<exists>m'. node_step nodes (meta_of ft dataset rng nodes ps)
                 \<lparr>Start = Start rng + row, End = Start rng + row + rem\<rparr> row rem j m = Some m'
           \<and> length m' = length nodes \<and> (\<forall>c\<in>set m'. length c = S)
           \<and> (\<forall>i<length nodes. \<not> IsVariable (nodes ! i) \<and> ft (HashValue (nodes ! i)) = None
                   \<longrightarrow> m' ! i = replicate S (ps ! i))
           \<and> (\<forall>i<Suc j. \<forall>k<rem. m' ! i ! k
                   = row_vals ft dataset g nodes ps (Start rng + row + k) (length nodes) ! i)"
proof -
  let ?rg = "\<lparr>Start = Start rng + row, End = Start rng + row + rem\<rparr>"
  let ?rv = "\<lambda>k. row_vals ft dataset g nodes ps (Start rng + row + k)"
  note meta = meta_of_nth [OF j P, of ft dataset rng]
  have nj: "nodes ! j \<in> set nodes"
    using j by simp
  have prefix: "map (\<lambda>x. x ! k) (take j m) = ?rv k j" if "k < rem" for k
  proof (rule nth_equalityI)
    show "length (map (\<lambda>x. x ! k) (take j m)) = length (?rv k j)"
      using j shape(1) by (simp add: length_row_vals)
  next
    fix i assume "i < length (map (\<lambda>x. x ! k) (take j m))"
    then have i: "i < j" by simp
    have "?rv k j ! i = take j (?rv k (length nodes)) ! i"
      using j by (simp add: take_row_vals)
    also have "\<dots> = ?rv k (length nodes) ! i"
      using i by simp
    finally show "map (\<lambda>x. x ! k) (take j m) ! i = ?rv k j ! i"
      using i j shape(1) rows that by simp
  qed
  show ?thesis
  proof (cases "IsVariable (nodes ! j)")
    case True
    with vars nj obtain c where c: "dataset (HashValue (nodes ! j)) = Some c" "End rng \<le> length c"
      by blast
    define new where "new = map ((*) (ps ! j)) (take rem (drop row (take (Size rng) (drop (Start rng) c))))"
    have lnew: "length new = rem"
      using blk c(2) by (simp add: new_def Size_def)
    have nnew: "new ! k = ps ! j * c ! (Start rng + row + k)" if "k < rem" for k
      using that blk c(2) by (simp add: new_def Size_def add.assoc)
    define m' where "m' = m[j := write_at (m ! j) 0 new]"
    have lj: "length (m ! j) = S"
      using shape j by simp
    have w: "write_at (m ! j) 0 new = new @ drop rem (m ! j)"
      by (simp add: write_at_def lnew)
    have step: "node_step nodes (meta_of ft dataset rng nodes ps) ?rg row rem j m = Some m'"
      using True j shape(1) c(1)
      by (simp add: node_step_def meta col_def set_col_def m'_def new_def)
    have "length (write_at (m ! j) 0 new) = S"
      using lj lnew blk(2) by (simp add: w)
    then have sh: "\<forall>c\<in>set m'. length c = S"
      using shape(2) set_update_subset_insert [of m j] by (auto simp: m'_def)
    have cs: "\<forall>i<length nodes. \<not> IsVariable (nodes ! i) \<and> ft (HashValue (nodes ! i)) = None
                   \<longrightarrow> m' ! i = replicate S (ps ! i)"
    proof (intro allI impI)
      fix i assume i: "i < length nodes"
        "\<not> IsVariable (nodes ! i) \<and> ft (HashValue (nodes ! i)) = None"
      with True have "i \<noteq> j" by auto
      with i cst show "m' ! i = replicate S (ps ! i)"
        by (simp add: m'_def)
    qed
    have "m' ! i ! k = ?rv k (length nodes) ! i" if "i < Suc j" "k < rem" for i k
    proof (cases "i = j")
      case False
      with that rows show ?thesis
        by (simp add: m'_def)
    next
      case eq: True
      have "m' ! j ! k = new ! k"
        using j shape(1) that(2) by (simp add: m'_def w nth_append lnew)
      also have "\<dots> = ?rv k (length nodes) ! j"
        using True c(1) nnew [OF that(2)] by (simp add: row_vals_nth [OF j])
      finally show ?thesis
        using eq by simp
    qed
    with step sh cs shape(1) show ?thesis
      by (auto simp: m'_def)
  next
    case notvar: False
    show ?thesis
    proof (cases "ft (HashValue (nodes ! j))")
      case None
      have step: "node_step nodes (meta_of ft dataset rng nodes ps) ?rg row rem j m = Some m"
        using notvar None by (simp add: node_step_def meta)
      have "m ! i ! k = ?rv k (length nodes) ! i" if "i < Suc j" "k < rem" for i k
      proof (cases "i = j")
        case False
        with that rows show ?thesis
          by simp
      next
        case True
        have "m ! j = replicate S (ps ! j)"
          using cst j notvar None by simp
        with that(2) blk(2) have "m ! j ! k = ps ! j"
          by simp
        with True notvar None show ?thesis
          by (simp add: row_vals_nth [OF j])
      qed
      with step shape cst show ?thesis
        by auto
    next
      case (Some f)
      have "length m = length nodes \<and> (\<forall>c\<in>set m. length c = S) \<and>
              Start ?rg \<le> End ?rg \<and> Size ?rg \<le> S"
        using shape blk(2) by (simp add: Size_def)
      with kr j Some notvar obtain c where
        c: "f m nodes j ?rg = Some (m[j := c])" "length c = S"
           "\<forall>k<Size ?rg. c ! k = g j (Start ?rg + k) (map (\<lambda>x. x ! k) (take j m))"
        unfolding kernels_rowwise_def by blast
      define m' where "m' = m[j := c]"
      have step: "node_step nodes (meta_of ft dataset rng nodes ps) ?rg row rem j m = Some m'"
        using notvar Some c(1) by (simp add: node_step_def meta m'_def)
      have sh: "\<forall>c\<in>set m'. length c = S"
        using shape(2) c(2) set_update_subset_insert [of m j] by (auto simp: m'_def)
      have cs: "\<forall>i<length nodes. \<not> IsVariable (nodes ! i) \<and> ft (HashValue (nodes ! i)) = None
                   \<longrightarrow> m' ! i = replicate S (ps ! i)"
      proof (intro allI impI)
        fix i assume i: "i < length nodes"
          "\<not> IsVariable (nodes ! i) \<and> ft (HashValue (nodes ! i)) = None"
        with Some have "i \<noteq> j" by auto
        with i cst show "m' ! i = replicate S (ps ! i)"
          by (simp add: m'_def)
      qed
      have "m' ! i ! k = ?rv k (length nodes) ! i" if "i < Suc j" "k < rem" for i k
      proof (cases "i = j")
        case False
        with that rows show ?thesis
          by (simp add: m'_def)
      next
        case True
        have "m' ! j ! k = c ! k"
          using j shape(1) by (simp add: m'_def)
        also have "\<dots> = g j (Start rng + row + k) (?rv k j)"
          using c(3) that(2) prefix [OF that(2)] by (simp add: Size_def)
        also have "\<dots> = ?rv k (length nodes) ! j"
          using notvar Some by (simp add: row_vals_nth [OF j])
        finally show ?thesis
          using True by simp
      qed
      with step sh cs shape(1) show ?thesis
        by (auto simp: m'_def)
    qed
  qed
qed


lemma node_loop_inv:
  assumes kr: "kernels_rowwise ft S nodes g"
    and vars: "\<forall>n\<in>set nodes. IsVariable n \<longrightarrow>
                 (\<exists>c. dataset (HashValue n) = Some c \<and> End rng \<le> length c)"
    and kinds: "\<forall>n\<in>set nodes. IsVariable n \<or> IsConstant n \<or> ft (HashValue n) \<noteq> None"
    and P: "length ps = length nodes"
    and j: "j \<le> length nodes"
    and blk: "row + rem \<le> Size rng" "rem \<le> S" "Start rng \<le> End rng"
    and shape: "length m = length nodes" "\<forall>c\<in>set m. length c = S"
    and cst: "\<forall>i<length nodes. \<not> IsVariable (nodes ! i) \<and> ft (HashValue (nodes ! i)) = None
                   \<longrightarrow> m ! i = replicate S (ps ! i)"
    and rows: "\<forall>i<j. \<forall>k<rem. m ! i ! k
                   = row_vals ft dataset g nodes ps (Start rng + row + k) (length nodes) ! i"
  shows "\<exists>m'. node_loop nodes (meta_of ft dataset rng nodes ps)
                 \<lparr>Start = Start rng + row, End = Start rng + row + rem\<rparr> row rem
                 [j..<length nodes] m = Some m'
           \<and> length m' = length nodes \<and> (\<forall>c\<in>set m'. length c = S)
           \<and> (\<forall>i<length nodes. \<not> IsVariable (nodes ! i) \<and> ft (HashValue (nodes ! i)) = None
                   \<longrightarrow> m' ! i = replicate S (ps ! i))
           \<and> (\<forall>i<length nodes. \<forall>k<rem. m' ! i ! k
                   = row_vals ft dataset g nodes ps (Start rng + row + k) (length nodes) ! i)"
  using j shape cst rows
proof (induction "length nodes - j" arbitrary: j m)
  case 0
  then show ?case
    by simp
next
  case (Suc d)
  then have j: "j < length nodes"
    by simp
  from node_step_inv [OF kr vars kinds P j blk Suc.prems(2,3,4,5)]
  obtain m1 where step: "node_step nodes (meta_of ft dataset rng nodes ps)
                 \<lparr>Start = Start rng + row, End = Start rng + row + rem\<rparr> row rem j m = Some m1"
    and m1: "length m1 = length nodes" "\<forall>c\<in>set m1. length c = S"
      "\<forall>i<length nodes. \<not> IsVariable (nodes ! i) \<and> ft (HashValue (nodes ! i)) = None
                   \<longrightarrow> m1 ! i = replicate S (ps ! i)"
      "\<forall>i<Suc j. \<forall>k<rem. m1 ! i ! k
                   = row_vals ft dataset g nodes ps (Start rng + row + k) (length nodes) ! i"
    by blast
  have "d = length nodes - Suc j" "Suc j \<le> length nodes"
    using Suc.hyps(2) j by simp_all
  from Suc.hyps(1) [OF this m1] step show ?case
    by (simp add: upt_conv_Cons [OF j])
qed

lemma block_loop_sem:
  assumes kr: "kernels_rowwise ft S nodes g"
    and vars: "\<forall>n\<in>set nodes. IsVariable n \<longrightarrow>
                 (\<exists>c. dataset (HashValue n) = Some c \<and> End rng \<le> length c)"
    and kinds: "\<forall>n\<in>set nodes. IsVariable n \<or> IsConstant n \<or> ft (HashValue n) \<noteq> None"
    and P: "length ps = length nodes"
    and ne: "nodes \<noteq> []" and S: "0 < S" and rng: "Start rng \<le> End rng"
    and small: "int (Size rng) + int S \<le> 2 ^ 31"
    and shape: "length m = length nodes" "\<forall>c\<in>set m. length c = S"
    and cst: "\<forall>i<length nodes. \<not> IsVariable (nodes ! i) \<and> ft (HashValue (nodes ! i)) = None
                   \<longrightarrow> m ! i = replicate S (ps ! i)"
    and res: "length res = Size rng"
      "\<forall>q<min row (Size rng). res ! q
          = last (row_vals ft dataset g nodes ps (Start rng + q) (length nodes))"
  shows "block_loop S nodes (meta_of ft dataset rng nodes ps) rng (Size rng) row m res
           = Some (map (\<lambda>r. last (row_vals ft dataset g nodes ps r (length nodes)))
                     [Start rng..<End rng])"
  using shape cst res
proof (induction "Size rng - row" arbitrary: row m res rule: less_induct)
  case less
  let ?out = "\<lambda>r. last (row_vals ft dataset g nodes ps r (length nodes))"
  have nonempty: "row_vals ft dataset g nodes ps r (length nodes) \<noteq> []" for r
  proof
    assume "row_vals ft dataset g nodes ps r (length nodes) = []"
    then have "length (row_vals ft dataset g nodes ps r (length nodes)) = 0"
      by simp
    with ne show False
      by (simp add: length_row_vals)
  qed
  show ?case
  proof (cases "row < Size rng")
    case False
    then have "\<forall>q<Size rng. res ! q = ?out (Start rng + q)"
      using less.prems(5) by simp
    then have "res = map ?out [Start rng..<End rng]"
      using less.prems(4) by (intro nth_equalityI) (simp_all add: Size_def)
    with False show ?thesis
      by (subst block_loop.simps) simp
  next
    case True
    define rem where "rem = min S (Size rng - row)"
    have blk: "row + rem \<le> Size rng" "rem \<le> S"
      using True by (simp_all add: rem_def)
    have "\<forall>i<0. \<forall>k<rem. m ! i ! k
            = row_vals ft dataset g nodes ps (Start rng + row + k) (length nodes) ! i"
      by simp
    from node_loop_inv [OF kr vars kinds P _ blk rng less.prems(1,2,3) this]
    obtain m' where loop: "node_loop nodes (meta_of ft dataset rng nodes ps)
                 \<lparr>Start = Start rng + row, End = Start rng + row + rem\<rparr> row rem
                 [0..<length nodes] m = Some m'"
      and m': "length m' = length nodes" "\<forall>c\<in>set m'. length c = S"
        "\<forall>i<length nodes. \<not> IsVariable (nodes ! i) \<and> ft (HashValue (nodes ! i)) = None
                   \<longrightarrow> m' ! i = replicate S (ps ! i)"
      and rows: "\<forall>i<length nodes. \<forall>k<rem. m' ! i ! k
                   = row_vals ft dataset g nodes ps (Start rng + row + k) (length nodes) ! i"
      by auto
    have ne': "m' \<noteq> []"
      using m'(1) ne by auto
    define seg where "seg = take rem (last m')"
    have "length (last m') = S"
      using m'(2) ne' by simp
    then have lseg: "length seg = rem"
      using blk(2) by (simp add: seg_def)
    have nseg: "seg ! k = ?out (Start rng + row + k)" if "k < rem" for k
    proof -
      have "seg ! k = m' ! (length nodes - 1) ! k"
        using that ne' m'(1) by (simp add: seg_def last_conv_nth)
      also have "\<dots> = row_vals ft dataset g nodes ps (Start rng + row + k) (length nodes)
                        ! (length nodes - 1)"
        using rows that ne by simp
      also have "\<dots> = ?out (Start rng + row + k)"
        using nonempty by (simp add: last_conv_nth length_row_vals)
      finally show ?thesis .
    qed
    define res' where "res' = write_at res row seg"
    have fit: "row + length seg \<le> length res"
      using blk(1) less.prems(4) by (simp add: lseg)
    have lres': "length res' = Size rng"
      using length_write_at [OF fit] less.prems(4) by (simp add: res'_def)
    have nres': "res' ! q = ?out (Start rng + q)" if "q < min (row + S) (Size rng)" for q
    proof -
      from that True have q: "q < row + rem" "q < length res"
        using less.prems(4) by (auto simp: rem_def)
      show ?thesis
      proof (cases "q < row")
        case True
        with q(2) fit less.prems(5) \<open>row < Size rng\<close> show ?thesis
          by (simp add: res'_def nth_write_at)
      next
        case False
        with q fit have "res' ! q = seg ! (q - row)"
          by (simp add: res'_def nth_write_at lseg)
        with False q(1) nseg [of "q - row"] show ?thesis
          by simp
      qed
    qed
    have no_overflow: "\<not> 2 ^ 31 \<le> int row + int S"
      using True small by linarith
    have step: "block_loop S nodes (meta_of ft dataset rng nodes ps) rng (Size rng) row m res
                  = block_loop S nodes (meta_of ft dataset rng nodes ps) rng (Size rng) (row + S)
                      m' res'"
      using True S loop ne' no_overflow
      by (subst block_loop.simps) (simp add: Let_def rem_def [symmetric] seg_def res'_def)
    have "Size rng - (row + S) < Size rng - row"
      using True S by simp
    from less.hyps [OF this m' lres'] nres' show ?thesis
      unfolding step by simp
  qed
qed


lemma valid_call_subrange:
  assumes "valid_call ft S nodes dataset rng parameters"
    "Start rng \<le> x" "x \<le> y" "y \<le> End rng"
  shows "valid_call ft S nodes dataset \<lparr>Start = x, End = y\<rparr> parameters"
proof -
  have "Size \<lparr>Start = x, End = y\<rparr> \<le> Size rng"
    using assms(2,3,4) by (simp add: Size_def)
  with assms show ?thesis
    unfolding valid_call_def by (auto simp: Size_def)
qed

lemma Evaluate_span_sem:
  assumes v: "valid_call ft S nodes dataset rng parameters"
    and kr: "kernels_rowwise ft S nodes g"
    and res: "length result = Size rng"
  shows "Evaluate_span ft S junk nodes dataset rng result parameters
           = Some (map (row_out ft dataset g nodes (params_of parameters nodes 0))
                     [Start rng..<End rng])"
proof -
  let ?ps = "params_of parameters nodes 0"
  let ?m0 = "map (\<lambda>i. map (junk i) [0..<S]) [0..<length nodes]"
  from v have ne: "nodes \<noteq> []" and S: "0 < S" and rng: "Start rng \<le> End rng"
    and S': "int S < 2 ^ 31" and small: "int (Size rng) + int S \<le> 2 ^ 31"
    and vars: "\<forall>n\<in>set nodes. IsVariable n \<longrightarrow>
                 (\<exists>c. dataset (HashValue n) = Some c \<and> End rng \<le> length c)"
    and kinds: "\<forall>n\<in>set nodes. IsVariable n \<or> IsConstant n \<or> ft (HashValue n) \<noteq> None"
    and enough: "\<forall>ps. parameters = Some ps \<longrightarrow> 0 + length (filter Optimize nodes) \<le> length ps"
    by (simp_all add: valid_call_def)
  have "0 + length nodes \<le> length ?m0"
    by simp
  from setup_loop_Some [OF vars rng enough this, of ft S]
  obtain m where run: "setup_loop ft dataset rng parameters S nodes 0 0 ?m0
                         = Some (meta_of ft dataset rng nodes ?ps, m)"
    and len: "length m = length nodes"
    and cols: "\<forall>j<length nodes. m ! j =
                 (if IsConstant (nodes ! j) then replicate S (?ps ! j) else ?m0 ! j)"
    by auto
  have shape: "\<forall>c\<in>set m. length c = S"
  proof
    fix c assume "c \<in> set m"
    then obtain j where "j < length nodes" "c = m ! j"
      using len by (auto simp: in_set_conv_nth)
    with cols show "length c = S"
      by simp
  qed
  have cst: "\<forall>i<length nodes. \<not> IsVariable (nodes ! i) \<and> ft (HashValue (nodes ! i)) = None
                   \<longrightarrow> m ! i = replicate S (?ps ! i)"
    using cols kinds by (auto simp: all_set_conv_all_nth)
  have "block_loop S nodes (meta_of ft dataset rng nodes ?ps) rng (Size rng) 0 m result
          = Some (map (\<lambda>r. last (row_vals ft dataset g nodes ?ps r (length nodes)))
                    [Start rng..<End rng])"
    by (rule block_loop_sem [OF kr vars kinds length_params_of ne S rng small len shape cst res])
      simp
  moreover from S S' small have "\<not> 2 ^ 31 \<le> int (Size rng)" "\<not> 2 ^ 31 \<le> int S"
    by linarith+
  ultimately show ?thesis
    using ne rng res run by (simp add: Evaluate_span_def row_out_def [abs_def])
qed

lemma tiles_sem:
  assumes v: "valid_call ft S nodes dataset rng parameters"
    and kr: "kernels_rowwise ft S nodes g"
    and B: "0 < B"
    and nt: "\<forall>idx<nt. idx * B < Size rng" "Size rng \<le> nt * B"
    and k: "k \<le> nt"
    and res: "length result = Size rng"
      "\<forall>q<min (k * B) (Size rng). result ! q
          = row_out ft dataset g nodes (params_of parameters nodes 0) (Start rng + q)"
  shows "tiles ft S junk nodes dataset rng B parameters [k..<nt] result
           = Some (map (row_out ft dataset g nodes (params_of parameters nodes 0))
                     [Start rng..<End rng])"
  using k res
proof (induction "nt - k" arbitrary: k result)
  case 0
  let ?out = "row_out ft dataset g nodes (params_of parameters nodes 0)"
  from 0 have "k = nt" by simp
  with 0 nt(2) have "\<forall>q<Size rng. result ! q = ?out (Start rng + q)"
    by (simp add: min_absorb2)
  then have "result = map ?out [Start rng..<End rng]"
    using 0(3) by (intro nth_equalityI) (simp_all add: Size_def)
  with \<open>k = nt\<close> show ?case
    by simp
next
  case (Suc d)
  let ?out = "row_out ft dataset g nodes (params_of parameters nodes 0)"
  from Suc have k: "k < nt" by simp
  with nt(1) have kB: "k * B < Size rng" by simp
  define start where "start = Start rng + k * B"
  define stop where "stop = min (start + B) (End rng)"
  from v have rng: "Start rng \<le> End rng"
    by (simp add: valid_call_def)
  have bounds: "Start rng \<le> start" "start \<le> stop" "stop \<le> End rng"
    using kB rng by (simp_all add: start_def stop_def Size_def)
  have width: "stop - start = min B (Size rng - k * B)"
    using kB rng by (auto simp: start_def stop_def Size_def min_def)
  define sub where "sub = take (stop - start) (drop (k * B) result)"
  have fits: "k * B + (stop - start) \<le> length result"
    using kB Suc.prems(2) by (simp add: width)
  then have sub: "subspan result (k * B) (stop - start) = Some sub"
    by (simp add: subspan_def sub_def)
  have lsub: "length sub = Size \<lparr>Start = start, End = stop\<rparr>"
    using fits by (simp add: sub_def Size_def)
  note v' = valid_call_subrange [OF v bounds]
  from Evaluate_span_sem [OF v' kr lsub, of "junk k"]
  have ev: "Evaluate_span ft S (junk k) nodes dataset \<lparr>Start = start, End = stop\<rparr> sub parameters
              = Some (map ?out [start..<stop])"
    by simp
  define seg where "seg = map ?out [start..<stop]"
  have lseg: "length seg = stop - start"
    by (simp add: seg_def)
  have nseg: "seg ! i = ?out (start + i)" if "i < stop - start" for i
    using that by (simp add: seg_def)
  define result' where "result' = write_at result (k * B) seg"
  have fit': "k * B + length seg \<le> length result"
    using fits by (simp only: lseg)
  have lres': "length result' = Size rng"
    using length_write_at [OF fit'] Suc.prems(2) by (simp add: result'_def)
  have nres': "result' ! q = ?out (Start rng + q)" if "q < min (Suc k * B) (Size rng)" for q
  proof -
    from that have "q < k * B + min B (Size rng - k * B)"
      using kB by auto
    then have q: "q < k * B + length seg" "q < length result"
      using fit' by (simp_all only: lseg width)
    show ?thesis
    proof (cases "q < k * B")
      case True
      then have "q < min (k * B) (Size rng)"
        using q(2) Suc.prems(2) by simp
      with Suc.prems(3) have "result ! q = ?out (Start rng + q)"
        by blast
      with True show ?thesis
        unfolding result'_def nth_write_at [OF fit' q(2)] by simp
    next
      case False
      then have "result' ! q = seg ! (q - k * B)"
        unfolding result'_def nth_write_at [OF fit' q(2)] using q(1) by simp
      also have "\<dots> = ?out (start + (q - k * B))"
        using False q(1) by (intro nseg) (simp add: lseg)
      finally show ?thesis
        using False by (simp add: start_def)
    qed
  qed
  have "d = nt - Suc k" "Suc k \<le> nt"
    using Suc.hyps(2) k by simp_all
  from Suc.hyps(1) [OF this lres'] nres'
  have "tiles ft S junk nodes dataset rng B parameters [Suc k..<nt] result'
          = Some (map ?out [Start rng..<End rng])"
    by simp
  then show ?case
    using sub ev
    by (simp add: upt_conv_Cons [OF k] Let_def start_def [symmetric] stop_def [symmetric]
        result'_def seg_def)
qed


lemma tile_count:
  fixes B N :: nat
  assumes "0 < B"
  defines "nt \<equiv> N div B + (if N mod B \<noteq> 0 then 1 else 0)"
  shows "N \<le> nt * B" and "idx < nt \<Longrightarrow> idx * B < N"
proof -
  have eq: "N = N div B * B + N mod B"
    by simp
  have lt: "N mod B < B"
    using assms(1) by simp
  show "N \<le> nt * B"
  proof (cases "N mod B = 0")
    case True
    with eq show ?thesis by (simp add: nt_def)
  next
    case False
    have "nt * B = N div B * B + B"
      using False by (simp add: nt_def add_mult_distrib)
    with eq lt show ?thesis by linarith
  qed
  show "idx * B < N" if "idx < nt"
  proof (cases "idx < N div B")
    case True
    then have "Suc idx * B \<le> N div B * B"
      by (intro mult_le_mono1) simp
    then have "idx * B + B \<le> N div B * B"
      by (simp add: add.commute)
    moreover have "N div B * B \<le> N"
      by simp
    ultimately show ?thesis
      using assms(1) by linarith
  next
    case False
    with that have "idx = N div B" "N mod B \<noteq> 0"
      by (auto simp: nt_def split: if_splits)
    then have "idx * B + N mod B = N" "0 < N mod B"
      by simp_all
    then show ?thesis
      by linarith
  qed
qed

text \<open>
  C4. For a valid call over \<open>[x, y)\<close> with callables that work row by row, a positive
  batch size and a split point \<open>z\<close> in \<open>[x, y]\<close>: the vector-returning overload returns a
  vector of \<open>y - x\<close> rows, the batched overload returns the same vector, and it is the
  evaluation over \<open>[x, z)\<close> followed by the evaluation over \<open>[z, y)\<close>, whatever the
  uninitialised buffers of the calls hold.
\<close>

theorem Evaluate_block_independence:
  assumes v: "valid_call ft S nodes dataset \<lparr>Start = x, End = y\<rparr> parameters"
    and kr: "kernels_rowwise ft S nodes g"
    and z: "x \<le> z" "z \<le> y"
    and B: "0 < batchSize" "int y + int batchSize < 2 ^ 64"
  shows "\<exists>out. Evaluate ft S junk nodes dataset \<lparr>Start = x, End = y\<rparr> parameters = Some out
           \<and> length out = y - x
           \<and> Evaluate_batched ft S junks nodes dataset \<lparr>Start = x, End = y\<rparr> batchSize parameters
               = Some out
           \<and> (\<exists>o1 o2. Evaluate ft S junk1 nodes dataset \<lparr>Start = x, End = z\<rparr> parameters = Some o1
                 \<and> Evaluate ft S junk2 nodes dataset \<lparr>Start = z, End = y\<rparr> parameters = Some o2
                 \<and> out = o1 @ o2)"
proof -
  let ?rng = "\<lparr>Start = x, End = y\<rparr>"
  let ?out = "row_out ft dataset g nodes (params_of parameters nodes 0)"
  let ?N = "Size ?rng"
  have ev: "Evaluate ft S j nodes dataset rng parameters = Some (map ?out [Start rng..<End rng])"
    if "valid_call ft S nodes dataset rng parameters" for j rng
    unfolding Evaluate_def by (rule Evaluate_span_sem [OF that kr]) simp
  have whole: "Evaluate ft S junk nodes dataset ?rng parameters = Some (map ?out [x..<y])"
    using ev [OF v] by simp
  have v1: "valid_call ft S nodes dataset \<lparr>Start = x, End = z\<rparr> parameters"
    and v2: "valid_call ft S nodes dataset \<lparr>Start = z, End = y\<rparr> parameters"
    using valid_call_subrange [OF v, of x z] valid_call_subrange [OF v, of z y] z by simp_all
  have parts: "Evaluate ft S junk1 nodes dataset \<lparr>Start = x, End = z\<rparr> parameters
                 = Some (map ?out [x..<z])"
    "Evaluate ft S junk2 nodes dataset \<lparr>Start = z, End = y\<rparr> parameters = Some (map ?out [z..<y])"
    using ev [OF v1] ev [OF v2] by simp_all
  have "[x..<y] = [x..<z] @ [z..<y]"
    using z by (metis le_Suc_ex upt_add_eq_append)
  then have split: "map ?out [x..<y] = map ?out [x..<z] @ map ?out [z..<y]"
    by simp
  define nt where "nt = ?N div batchSize + (if ?N mod batchSize \<noteq> 0 then 1 else 0)"
  have nt1: "\<forall>idx<nt. idx * batchSize < ?N" and nt2: "?N \<le> nt * batchSize"
    using tile_count(1) [OF B(1), where N = ?N] tile_count(2) [OF B(1), where N = ?N]
    unfolding nt_def by blast+
  have "tiles ft S junks nodes dataset ?rng batchSize parameters [0..<nt] (replicate ?N 0)
          = Some (map ?out [Start ?rng..<End ?rng])"
    by (rule tiles_sem [OF v kr B(1) nt1 nt2]) simp_all
  then have batched: "Evaluate_batched ft S junks nodes dataset ?rng batchSize parameters
                        = Some (map ?out [x..<y])"
    using B z by (simp add: Evaluate_batched_def nt_def Let_def)
  from whole batched parts split z show ?thesis
    by simp
qed

lemma same_but_Value_nth:
  assumes "same_but_Value ns ns'"
  shows "length ns' = length ns"
    and "i < length ns \<Longrightarrow> ns' ! i = (ns ! i)\<lparr>Value := Value (ns' ! i)\<rparr>"
proof -
  from assms have eq: "map (\<lambda>n. n\<lparr>Value := 0\<rparr>) ns = map (\<lambda>n. n\<lparr>Value := 0\<rparr>) ns'"
    by (simp add: same_but_Value_def)
  then show len: "length ns' = length ns"
    by (metis length_map)
  assume i: "i < length ns"
  with eq len have "(ns ! i)\<lparr>Value := 0\<rparr> = (ns' ! i)\<lparr>Value := 0\<rparr>"
    by (metis nth_map)
  then have "(ns ! i)\<lparr>Value := 0, Value := Value (ns' ! i)\<rparr>
               = (ns' ! i)\<lparr>Value := 0, Value := Value (ns' ! i)\<rparr>"
    by simp
  then show "ns' ! i = (ns ! i)\<lparr>Value := Value (ns' ! i)\<rparr>"
    by simp
qed

lemma same_but_Value_fields:
  assumes "same_but_Value ns ns'" "i < length ns"
  shows "HashValue (ns' ! i) = HashValue (ns ! i)" "Type (ns' ! i) = Type (ns ! i)"
    "Arity (ns' ! i) = Arity (ns ! i)" "Length (ns' ! i) = Length (ns ! i)"
    "Optimize (ns' ! i) = Optimize (ns ! i)"
    "IsVariable (ns' ! i) = IsVariable (ns ! i)" "IsConstant (ns' ! i) = IsConstant (ns ! i)"
proof -
  from same_but_Value_nth(2) [OF assms] obtain w where w: "ns' ! i = (ns ! i)\<lparr>Value := w\<rparr>"
    by blast
  show "HashValue (ns' ! i) = HashValue (ns ! i)" "Type (ns' ! i) = Type (ns ! i)"
    "Arity (ns' ! i) = Arity (ns ! i)" "Length (ns' ! i) = Length (ns ! i)"
    "Optimize (ns' ! i) = Optimize (ns ! i)"
    "IsVariable (ns' ! i) = IsVariable (ns ! i)" "IsConstant (ns' ! i) = IsConstant (ns ! i)"
    by (simp_all add: w IsVariable_def IsConstant_def)
qed

lemma same_but_Value_substitute: "same_but_Value ns (substitute ns ps)"
  by (induction ns arbitrary: ps) (auto simp: same_but_Value_def split: list.splits)

lemma nextSibling_same:
  assumes "same_but_Value ns ns'"
  shows "nextSibling ns' i = nextSibling ns i"
proof (cases "0 \<le> i \<and> i < int (length ns)")
  case True
  then have "nat i < length ns" by linarith
  from same_but_Value_fields(4) [OF assms this] same_but_Value_nth(1) [OF assms] True
  show ?thesis
    by (simp add: nextSibling_def node_at_def)
next
  case False
  with same_but_Value_nth(1) [OF assms] show ?thesis
    by (auto simp: nextSibling_def node_at_def)
qed

lemma dispatch_loop_same:
  fixes m :: "'a::{plus, minus, times, uminus, inverse} buffer"
  assumes "same_but_Value ns ns'"
  shows "dispatch_loop N ns' p m ar i c = dispatch_loop N ns p m ar i c"
proof (induction "nat ar" arbitrary: ar m i c rule: less_induct)
  case less
  have rec: "dispatch_loop N ns' p m' (ar - 5) i' c' = dispatch_loop N ns p m' (ar - 5) i' c'"
    if "0 < ar - 5" for m' :: "'a buffer" and i' c'
    by (rule less) (use that in simp)
  show ?case
    by (simp add: dispatch_loop.simps [of N ns' p m ar i c] dispatch_loop.simps [of N ns p m ar i c]
        nextSibling_same [OF assms] rec cong: if_cong bind_option_cong)
qed

lemma dispatch_op_same:
  assumes "same_but_Value ns ns'"
  shows "dispatch_op N m ns' p = dispatch_op N m ns p"
proof (cases "p < length ns")
  case True
  from same_but_Value_fields(3) [OF assms True] same_but_Value_nth(1) [OF assms] True
  show ?thesis
    by (simp add: dispatch_op_def node_at_def dispatch_loop_same [OF assms])
next
  case False
  with same_but_Value_nth(1) [OF assms] show ?thesis
    by (simp add: dispatch_op_def node_at_def)
qed

lemma value_blind_arith_table: "value_blind arith_table"
  unfolding value_blind_def
  by (auto simp: arith_table_def dispatch_op_same split: if_splits)


lemma lin_tree_rowwise: "kernels_rowwise arith_table S lin_tree (\<lambda>i r vs. vs ! 1 + vs ! 0)"
  unfolding kernels_rowwise_def
proof (intro allI impI)
  fix i f and m :: "Scalar buffer" and rg
  assume i: "i < length lin_tree"
    and f: "arith_table (HashValue (lin_tree ! i)) = Some f"
    and nv: "\<not> IsVariable (lin_tree ! i)"
    and sh: "length m = length lin_tree \<and> (\<forall>c\<in>set m. length c = S) \<and>
             Start rg \<le> End rg \<and> Size rg \<le> S"
  from i have "i = 0 \<or> i = 1 \<or> i = 2"
    by (auto simp: lin_tree_def)
  with f nv have i2: "i = 2" and fd: "f = (\<lambda>m nodes i rg. dispatch_op Add m nodes i)"
    by (auto simp: lin_tree_def arith_table_def const_node_def variable_def inner_def
        Node_of_def Node_of_hash_def IsVariable_def split: if_splits)
  have len: "length m = 3"
    using sh by (simp add: lin_tree_def)
  then obtain c0 c1 c2 where m: "m = [c0, c1, c2]"
    by (auto simp: eval_nat_numeral length_Suc_conv)
  with sh have l: "length c0 = S" "length c1 = S"
    by simp_all
  have ch: "children lin_tree 2 = Some [1, 0]"
    by code_simp
  have ar: "2 \<le> Arity (lin_tree ! 2)" "Arity (lin_tree ! 2) \<le> 6" "2 < length lin_tree"
    by (simp_all add: lin_tree_def inner_def Node_of_def Node_of_hash_def)
  have "dispatch_op Add m lin_tree 2 = Some (m[2 := cadd c1 c0])"
    using dispatch_op_upto_six [where m = m and N = Add, OF _ ar(3) ar(1,2) ch] sh ar
    by (simp add: m op_def)
  moreover have "length (cadd c1 c0) = S"
    using l by (simp add: cadd_def)
  moreover have "cadd c1 c0 ! k = [c0 ! k, c1 ! k] ! 1 + [c0 ! k, c1 ! k] ! 0" if "k < S" for k
    using l that by (simp add: cadd_def)
  ultimately show "\<exists>c. f m lin_tree i rg = Some (m[i := c]) \<and> length c = S \<and>
        (\<forall>k<Size rg. c ! k = map (\<lambda>x. x ! k) (take i m) ! 1 + map (\<lambda>x. x ! k) (take i m) ! 0)"
    using sh by (auto simp: fd i2 m)
qed

lemma lin_tree_valid:
  "valid_call arith_table 2 lin_tree xy_data \<lparr>Start = 0, End = 3\<rparr> parameters
     \<longleftrightarrow> (\<forall>ps. parameters = Some ps \<longrightarrow> 2 \<le> length ps)"
  by (simp add: valid_call_def lin_tree_def xy_data_def arith_table_def const_node_def
      variable_def inner_def Node_of_def Node_of_hash_def IsVariable_def IsConstant_def Size_def)
    (simp add: numeral_2_eq_2)

theorem Evaluate_block_independence_witness:
  "valid_call arith_table 2 lin_tree xy_data \<lparr>Start = 0, End = 3\<rparr> None
   \<and> kernels_rowwise arith_table 2 lin_tree (\<lambda>i r vs. vs ! 1 + vs ! 0)
   \<and> Evaluate arith_table 2 (\<lambda>i k. 0) lin_tree xy_data \<lparr>Start = 0, End = 3\<rparr> None
       = Some [5, 7, 9]
   \<and> Evaluate_batched arith_table 2 (\<lambda>j i k. 0) lin_tree xy_data \<lparr>Start = 0, End = 3\<rparr> 2 None
       = Some [5, 7, 9]
   \<and> Evaluate arith_table 2 (\<lambda>i k. 0) lin_tree xy_data \<lparr>Start = 0, End = 1\<rparr> None = Some [5]
   \<and> Evaluate arith_table 2 (\<lambda>i k. 0) lin_tree xy_data \<lparr>Start = 1, End = 3\<rparr> None
       = Some [7, 9]"
proof -
  have v: "valid_call arith_table 2 lin_tree xy_data \<lparr>Start = 0, End = 3\<rparr> None"
    by (simp add: lin_tree_valid)
  have kr: "kernels_rowwise arith_table 2 lin_tree (\<lambda>i r vs. vs ! 1 + vs ! 0)"
    by (rule lin_tree_rowwise)
  have e: "Evaluate arith_table 2 (\<lambda>i k. 0) lin_tree xy_data \<lparr>Start = 0, End = 3\<rparr> None
             = Some [5, 7, 9]"
    by code_simp
  from Evaluate_block_independence [OF v kr, of 1 2 "\<lambda>i k. 0" "\<lambda>j i k. 0" "\<lambda>i k. 0" "\<lambda>i k. 0"]
  obtain out o1 o2 where
    "Evaluate arith_table 2 (\<lambda>i k. 0) lin_tree xy_data \<lparr>Start = 0, End = 3\<rparr> None = Some out"
    "Evaluate_batched arith_table 2 (\<lambda>j i k. 0) lin_tree xy_data \<lparr>Start = 0, End = 3\<rparr> 2 None
       = Some out"
    "Evaluate arith_table 2 (\<lambda>i k. 0) lin_tree xy_data \<lparr>Start = 0, End = 1\<rparr> None = Some o1"
    "Evaluate arith_table 2 (\<lambda>i k. 0) lin_tree xy_data \<lparr>Start = 1, End = 3\<rparr> None = Some o2"
    "out = o1 @ o2" "length out = 3 - 0"
    by auto
  moreover have "Evaluate arith_table 2 (\<lambda>i k. 0) lin_tree xy_data \<lparr>Start = 0, End = 1\<rparr> None
                   = Some [5]"
    by code_simp
  ultimately show ?thesis
    using v kr e by auto
qed


lemma params_of_None: "params_of None ns idx = map Value ns"
  by (induction ns arbitrary: idx) simp_all

lemma params_of_substitute:
  assumes "\<forall>n\<in>set ns. Optimize n \<longrightarrow> IsLeaf n"
    "idx + length (filter Optimize ns) \<le> length ps"
  shows "params_of (Some ps) ns idx = map Value (substitute ns (drop idx ps))"
  using assms
proof (induction ns arbitrary: idx)
  case Nil
  then show ?case by simp
next
  case (Cons n ns)
  show ?case
  proof (cases "Optimize n")
    case True
    with Cons.prems have leaf: "IsLeaf n" and idx: "idx < length ps"
      and rest: "Suc idx + length (filter Optimize ns) \<le> length ps"
      by simp_all
    from idx have d: "drop idx ps = ps ! idx # drop (Suc idx) ps"
      by (simp add: Cons_nth_drop_Suc)
    from Cons.IH [OF _ rest] Cons.prems(1) True leaf show ?thesis
      by (simp add: d)
  next
    case False
    with Cons.IH [of idx] Cons.prems show ?thesis
      by simp
  qed
qed

lemma row_vals_same:
  assumes "same_but_Value ns ns'" "i \<le> length ns"
  shows "row_vals ft dataset g ns' ps r i = row_vals ft dataset g ns ps r i"
  using assms(2)
proof (induction i)
  case 0
  then show ?case by simp
next
  case (Suc i)
  then have i: "i < length ns" by simp
  from Suc same_but_Value_fields(1,6) [OF assms(1) i] show ?case
    by (simp add: Let_def)
qed

lemma kernels_rowwise_same:
  assumes kr: "kernels_rowwise ft S ns g" and vb: "value_blind ft" and sv: "same_but_Value ns ns'"
  shows "kernels_rowwise ft S ns' g"
  unfolding kernels_rowwise_def
proof (intro allI impI)
  fix i f and m :: "Scalar buffer" and rg
  assume i: "i < length ns'" and f: "ft (HashValue (ns' ! i)) = Some f"
    and nv: "\<not> IsVariable (ns' ! i)"
    and sh: "length m = length ns' \<and> (\<forall>c\<in>set m. length c = S) \<and>
             Start rg \<le> End rg \<and> Size rg \<le> S"
  note len = same_but_Value_nth(1) [OF sv]
  from i len have i': "i < length ns" by simp
  from f nv same_but_Value_fields(1,6) [OF sv i']
  have f': "ft (HashValue (ns ! i)) = Some f" and nv': "\<not> IsVariable (ns ! i)"
    by simp_all
  from sh len have sh': "length m = length ns \<and> (\<forall>c\<in>set m. length c = S) \<and>
             Start rg \<le> End rg \<and> Size rg \<le> S"
    by simp
  from kr i' f' nv' sh' have "\<exists>c. f m ns i rg = Some (m[i := c]) \<and> length c = S \<and>
        (\<forall>k<Size rg. c ! k = g i (Start rg + k) (map (\<lambda>x. x ! k) (take i m)))"
    unfolding kernels_rowwise_def by blast
  moreover from vb f' sv have "f m ns i rg = f m ns' i rg"
    unfolding value_blind_def by blast
  ultimately show "\<exists>c. f m ns' i rg = Some (m[i := c]) \<and> length c = S \<and>
        (\<forall>k<Size rg. c ! k = g i (Start rg + k) (map (\<lambda>x. x ! k) (take i m)))"
    by simp
qed

lemma valid_call_same:
  assumes v: "valid_call ft S ns dataset rng parameters" and sv: "same_but_Value ns ns'"
  shows "valid_call ft S ns' dataset rng None"
proof -
  note len = same_but_Value_nth(1) [OF sv]
  have nth: "\<exists>i<length ns. n = ns' ! i" if "n \<in> set ns'" for n
    using that len by (auto simp: in_set_conv_nth)
  from v len have "ns' \<noteq> []"
    by (auto simp: valid_call_def)
  moreover have "\<exists>c. dataset (HashValue n) = Some c \<and> End rng \<le> length c"
    if "n \<in> set ns'" "IsVariable n" for n
  proof -
    from nth [OF that(1)] obtain i where i: "i < length ns" "n = ns' ! i"
      by blast
    with that(2) same_but_Value_fields(1,6) [OF sv i(1)]
    have "IsVariable (ns ! i)" "HashValue n = HashValue (ns ! i)"
      by simp_all
    with v i(1) show ?thesis
      by (auto simp: valid_call_def)
  qed
  moreover have "IsVariable n \<or> IsConstant n \<or> ft (HashValue n) \<noteq> None" if "n \<in> set ns'" for n
  proof -
    from nth [OF that] obtain i where i: "i < length ns" "n = ns' ! i"
      by blast
    from v i(1) have "IsVariable (ns ! i) \<or> IsConstant (ns ! i) \<or> ft (HashValue (ns ! i)) \<noteq> None"
      by (auto simp: valid_call_def)
    with same_but_Value_fields(1,6,7) [OF sv i(1)] i(2) show ?thesis
      by simp
  qed
  ultimately show ?thesis
    using v by (auto simp: valid_call_def)
qed

text \<open>
  C3. For a valid call with parameters whose \<open>Optimize\<close>-marked nodes are all leaves, and
  a table of callables that work row by row and do not read the \<open>Value\<close> field:
  evaluating with the parameters gives the same output as evaluating, with no
  parameters, the tree in which each \<open>Optimize\<close>-marked leaf has its value replaced by
  its parameter entry, taken in tree order.
\<close>

theorem Evaluate_parameter_substitution:
  assumes v: "valid_call ft S nodes dataset rng (Some ps)"
    and kr: "kernels_rowwise ft S nodes g" and vb: "value_blind ft"
    and leaves: "\<forall>n\<in>set nodes. Optimize n \<longrightarrow> IsLeaf n"
  shows "\<exists>out. Evaluate ft S junk nodes dataset rng (Some ps) = Some out
           \<and> length out = Size rng
           \<and> Evaluate ft S junk' (substitute nodes ps) dataset rng None = Some out"
proof -
  let ?ns' = "substitute nodes ps"
  note sv = same_but_Value_substitute [of nodes ps]
  note len = same_but_Value_nth(1) [OF sv]
  from v have enough: "0 + length (filter Optimize nodes) \<le> length ps"
    by (simp add: valid_call_def)
  have par: "params_of (Some ps) nodes 0 = params_of None ?ns' 0"
    using params_of_substitute [OF leaves enough] by (simp add: params_of_None)
  have out: "row_out ft dataset g ?ns' qs r = row_out ft dataset g nodes qs r" for qs r
    by (simp add: row_out_def len row_vals_same [OF sv])
  have "Evaluate ft S junk nodes dataset rng (Some ps)
          = Some (map (row_out ft dataset g nodes (params_of (Some ps) nodes 0))
                    [Start rng..<End rng])"
    unfolding Evaluate_def by (rule Evaluate_span_sem [OF v kr]) simp
  moreover have "Evaluate ft S junk' ?ns' dataset rng None
          = Some (map (row_out ft dataset g ?ns' (params_of None ?ns' 0)) [Start rng..<End rng])"
    unfolding Evaluate_def
    by (rule Evaluate_span_sem [OF valid_call_same [OF v sv] kernels_rowwise_same [OF kr vb sv]])
      simp
  ultimately show ?thesis
    by (simp add: par out Size_def)
qed

theorem Evaluate_parameter_substitution_witness:
  "valid_call arith_table 2 lin_tree xy_data \<lparr>Start = 0, End = 3\<rparr> (Some [10, 1])
   \<and> kernels_rowwise arith_table 2 lin_tree (\<lambda>i r vs. vs ! 1 + vs ! 0)
   \<and> value_blind arith_table
   \<and> list_all (\<lambda>n. \<not> Optimize n \<or> IsLeaf n) lin_tree
   \<and> Evaluate arith_table 2 (\<lambda>i k. 0) lin_tree xy_data \<lparr>Start = 0, End = 3\<rparr> (Some [10, 1])
       = Some [11, 12, 13]
   \<and> map Value (substitute lin_tree [10, 1]) = [10, 1, 1]
   \<and> Evaluate arith_table 2 (\<lambda>i k. 1) (substitute lin_tree [10, 1]) xy_data
        \<lparr>Start = 0, End = 3\<rparr> None = Some [11, 12, 13]"
proof -
  have v: "valid_call arith_table 2 lin_tree xy_data \<lparr>Start = 0, End = 3\<rparr> (Some [10, 1])"
    by (simp add: lin_tree_valid)
  have kr: "kernels_rowwise arith_table 2 lin_tree (\<lambda>i r vs. vs ! 1 + vs ! 0)"
    by (rule lin_tree_rowwise)
  have leaves: "\<forall>n\<in>set lin_tree. Optimize n \<longrightarrow> IsLeaf n"
    by (simp add: lin_tree_def const_node_def variable_def inner_def Node_of_def
        Node_of_hash_def IsLeaf_def)
  have e: "Evaluate arith_table 2 (\<lambda>i k. 0) lin_tree xy_data \<lparr>Start = 0, End = 3\<rparr>
             (Some [10, 1]) = Some [11, 12, 13]"
    by code_simp
  have s: "map Value (substitute lin_tree [10, 1]) = [10, 1, 1]"
    by code_simp
  from Evaluate_parameter_substitution [OF v kr value_blind_arith_table leaves,
      of "\<lambda>i k. 0" "\<lambda>i k. 1"] e
  have "Evaluate arith_table 2 (\<lambda>i k. 1) (substitute lin_tree [10, 1]) xy_data
          \<lparr>Start = 0, End = 3\<rparr> None = Some [11, 12, 13]"
    by auto
  with v kr value_blind_arith_table leaves e s show ?thesis
    by (auto simp: list_all_iff)
qed

section \<open>The arithmetic kernels in the interpreter\<close>

lemma flat_Sub_rowwise:
  "kernels_rowwise arith_table S (flat_tree Sub [10, 1, 2, 3])
     (\<lambda>i r vs. vs ! 3 - (vs ! 2 + (vs ! 1 + vs ! 0)))"
  unfolding kernels_rowwise_def
proof (intro allI impI)
  let ?t = "flat_tree Sub [10, 1, 2, 3]"
  fix i f and m :: "Scalar buffer" and rg
  assume i: "i < length ?t"
    and f: "arith_table (HashValue (?t ! i)) = Some f"
    and sh: "length m = length ?t \<and> (\<forall>c\<in>set m. length c = S) \<and>
             Start rg \<le> End rg \<and> Size rg \<le> S"
  from i have "i = 0 \<or> i = 1 \<or> i = 2 \<or> i = 3 \<or> i = 4"
    by (auto simp: flat_tree_def)
  with f have i4: "i = 4" and fd: "f = (\<lambda>m nodes i rg. dispatch_op Sub m nodes i)"
    by (auto simp: flat_tree_def arith_table_def const_node_def inner_def
        Node_of_def Node_of_hash_def split: if_splits)
  have len: "length m = 5"
    using sh by (simp add: flat_tree_def)
  then obtain c0 c1 c2 c3 c4 where m: "m = [c0, c1, c2, c3, c4]"
    by (auto simp: eval_nat_numeral length_Suc_conv)
  have ch: "children ?t 4 = Some [3, 2, 1, 0]"
    by code_simp
  have ar: "2 \<le> Arity (?t ! 4)" "Arity (?t ! 4) \<le> 5" "4 < length ?t"
    by (simp_all add: flat_tree_def inner_def Node_of_def Node_of_hash_def)
  have "length m = length ?t" "\<forall>c\<in>set m. length c = S"
    using sh by simp_all
  from dispatch_op_Sub_Div_rows [OF this ar(3) ar(1,2) ch]
  obtain r where r: "dispatch_op Sub m ?t 4 = Some (m[4 := r])" "length r = S"
    "\<forall>k<S. r ! k = m ! nat 3 ! k
        - fold_right (+) (m ! nat 2 ! k) (map (\<lambda>c. m ! nat c ! k) [1, 0])"
    by blast
  from r(3) have "\<forall>k<S. r ! k = c3 ! k - (c2 ! k + (c1 ! k + c0 ! k))"
    by (simp add: m)
  with r(1,2) sh show "\<exists>c. f m ?t i rg = Some (m[i := c]) \<and> length c = S \<and>
        (\<forall>k<Size rg. c ! k = map (\<lambda>x. x ! k) (take i m) ! 3
           - (map (\<lambda>x. x ! k) (take i m) ! 2
              + (map (\<lambda>x. x ! k) (take i m) ! 1 + map (\<lambda>x. x ! k) (take i m) ! 0)))"
    by (auto simp: fd i4 m)
qed

lemma flat_Sub_Evaluate:
  assumes "0 < S" "int S < 2 ^ 31" "Start rng \<le> End rng" "int (Size rng) + int S \<le> 2 ^ 31"
  shows "Evaluate arith_table S junk (flat_tree Sub [10, 1, 2, 3]) dataset rng None
           = Some (replicate (Size rng) (- 10))"
proof -
  let ?t = "flat_tree Sub [10, 1, 2, 3]"
  let ?g = "\<lambda>(i::nat) (r::nat) (vs::Scalar list). vs ! 3 - (vs ! 2 + (vs ! 1 + vs ! 0))"
  have v: "valid_call arith_table S ?t dataset rng None"
    using assms
    by (simp add: valid_call_def flat_tree_def arith_table_def const_node_def inner_def
        Node_of_def Node_of_hash_def IsVariable_def IsConstant_def)
  have five: "length ?t = Suc (Suc (Suc (Suc (Suc 0))))"
    by (simp add: flat_tree_def)
  have out: "row_out arith_table dataset ?g ?t (params_of None ?t 0) r = - 10" for r
    unfolding row_out_def five row_vals.simps
    by (simp add: flat_tree_def arith_table_def const_node_def inner_def
        Node_of_def Node_of_hash_def IsVariable_def Let_def)
  have "Evaluate arith_table S junk ?t dataset rng None
          = Some (map (row_out arith_table dataset ?g ?t (params_of None ?t 0))
                    [Start rng..<End rng])"
    unfolding Evaluate_def by (rule Evaluate_span_sem [OF v flat_Sub_rowwise]) simp
  moreover have "map (row_out arith_table dataset ?g ?t (params_of None ?t 0))
                   [Start rng..<End rng] = map (\<lambda>r. - 10) [Start rng..<End rng]"
    by (rule map_cong) (simp_all only: out)
  ultimately show ?thesis
    by (simp only: map_replicate_const length_upt Size_def)
qed


text \<open>
  C5, as the code has it. \<open>p\<close> is a node whose children \<open>c0, c1, ...\<close>, in the order of the
  sibling recurrence, are positions of the array: \<open>c0 = p - 1\<close> is the last child in array
  order. The scalar type is arbitrary and nothing is assumed of its operations, so each
  result is the very expression that the kernel evaluates, with its rounding and with
  whatever a division by zero gives.

  With 2 to 5 children, \<open>dispatch_op\<close> for \<open>Sub\<close> writes into column \<open>p\<close>, row by row, the
  column of \<open>c0\<close> minus the sum of the columns of the remaining children, added from the
  right (\<open>c1 + (c2 + ...)\<close>); for \<open>Div\<close>, the column of \<open>c0\<close> divided by the product of the
  rest, multiplied from the right. With 6 children the first five go through the kernel
  in this way and the sixth is subtracted from the result (divides it). No other column
  changes.

  For the tree \<^verbatim>\<open>[c1=10, c2=1, c3=2, c4=3, Sub(arity=4, length=4)]\<close>, an interpreter over
  the real numbers whose table has \<open>dispatch_op\<close> for \<open>Sub\<close> returns
  \<open>3 - (2 + (1 + 10)) = -10\<close> for every row, over any dataset and any range that the row
  counter can cover.
\<close>

theorem dispatch_op_Sub_Div:
  "(length m = length nodes \<and> (\<forall>c\<in>set m. length c = L) \<and> p < length nodes \<and>
    2 \<le> Arity (nodes ! p) \<and> Arity (nodes ! p) \<le> 5 \<and> children nodes p = Some (c0 # c1 # cs) \<longrightarrow>
      (\<exists>r. dispatch_op Sub m nodes p = Some (m[p := r]) \<and> length r = L \<and>
            (\<forall>k<L. r ! k = m ! nat c0 ! k
                - fold_right (+) (m ! nat c1 ! k) (map (\<lambda>c. m ! nat c ! k) cs)))
    \<and> (\<exists>r. dispatch_op Div m nodes p = Some (m[p := r]) \<and> length r = L \<and>
            (\<forall>k<L. r ! k = m ! nat c0 ! k
                / fold_right (*) (m ! nat c1 ! k) (map (\<lambda>c. m ! nat c ! k) cs))))
   \<and> (length m = length nodes \<and> (\<forall>c\<in>set m. length c = L) \<and> p < length nodes \<and>
      Arity (nodes ! p) = 6 \<and> children nodes p = Some (c0 # c1 # cs) \<longrightarrow>
      (\<exists>r. dispatch_op Sub m nodes p = Some (m[p := r]) \<and> length r = L \<and>
            (\<forall>k<L. r ! k = (m ! nat c0 ! k
                - fold_right (+) (m ! nat c1 ! k) (map (\<lambda>c. m ! nat c ! k) (butlast cs)))
                - m ! nat (last cs) ! k))
    \<and> (\<exists>r. dispatch_op Div m nodes p = Some (m[p := r]) \<and> length r = L \<and>
            (\<forall>k<L. r ! k = (m ! nat c0 ! k
                / fold_right (*) (m ! nat c1 ! k) (map (\<lambda>c. m ! nat c ! k) (butlast cs)))
                / m ! nat (last cs) ! k)))
   \<and> (0 < S \<and> int S < 2 ^ 31 \<and> Start rng \<le> End rng \<and> int (Size rng) + int S \<le> 2 ^ 31 \<longrightarrow>
        Evaluate arith_table S junk (flat_tree Sub [10, 1, 2, 3]) dataset rng None
          = Some (replicate (Size rng) (- 10)))"
  using dispatch_op_Sub_Div_rows [of m nodes L p c0 c1 cs]
    dispatch_op_Sub_Div_rows_six [of m nodes L p c0 c1 cs]
    flat_Sub_Evaluate [of S rng junk dataset]
  by blast

theorem dispatch_op_Sub_Div_witness:
  "children (flat_tree Sub [10, 1, 2, 3]) 4 = Some [3, 2, 1, 0] \<and>
   (\<exists>r. dispatch_op Sub (const_buffer [10, 1, 2, 3, 0]) (flat_tree Sub [10, 1, 2, 3]) 4
          = Some ((const_buffer [10, 1, 2, 3, 0])[4 := r]) \<and>
        length r = BATCHSIZE \<and> (\<forall>k<BATCHSIZE. r ! k = - 10)) \<and>
   (\<exists>r. dispatch_op Div (const_buffer [10, 1, 2, 3, 0]) (flat_tree Sub [10, 1, 2, 3]) 4
          = Some ((const_buffer [10, 1, 2, 3, 0])[4 := r]) \<and>
        length r = BATCHSIZE \<and> (\<forall>k<BATCHSIZE. r ! k = 3 / 20)) \<and>
   children (flat_tree Sub [1, 2, 3, 4, 5, 6]) 6 = Some [5, 4, 3, 2, 1, 0] \<and>
   (\<exists>r. dispatch_op Sub (const_buffer [1, 2, 3, 4, 5, 6, 0]) (flat_tree Sub [1, 2, 3, 4, 5, 6]) 6
          = Some ((const_buffer [1, 2, 3, 4, 5, 6, 0])[6 := r]) \<and>
        length r = BATCHSIZE \<and> (\<forall>k<BATCHSIZE. r ! k = - 9)) \<and>
   (\<exists>r. dispatch_op Div (const_buffer [1, 2, 3, 4, 5, 6, 0]) (flat_tree Sub [1, 2, 3, 4, 5, 6]) 6
          = Some ((const_buffer [1, 2, 3, 4, 5, 6, 0])[6 := r]) \<and>
        length r = BATCHSIZE \<and> (\<forall>k<BATCHSIZE. r ! k = 1 / 20)) \<and>
   Evaluate arith_table BATCHSIZE (\<lambda>i k. 0) (flat_tree Sub [10, 1, 2, 3]) xy_data
     \<lparr>Start = 0, End = 3\<rparr> None = Some [- 10, - 10, - 10]"
proof -
  let ?m = "const_buffer [10, 1, 2, 3, 0]" and ?t = "flat_tree Sub [10, 1, 2, 3]"
  let ?m6 = "const_buffer [1, 2, 3, 4, 5, 6, 0]" and ?t6 = "flat_tree Sub [1, 2, 3, 4, 5, 6]"
  have h: "length ?m = length ?t \<and> (\<forall>c\<in>set ?m. length c = BATCHSIZE) \<and> 4 < length ?t \<and>
    2 \<le> Arity (?t ! 4) \<and> Arity (?t ! 4) \<le> 5 \<and> children ?t 4 = Some [3, 2, 1, 0]"
    by (simp add: const_buffer_def flat_tree_def inner_def Node_of_def Node_of_hash_def)
      code_simp
  have h6: "length ?m6 = length ?t6 \<and> (\<forall>c\<in>set ?m6. length c = BATCHSIZE) \<and> 6 < length ?t6 \<and>
    Arity (?t6 ! 6) = 6 \<and> children ?t6 6 = Some [5, 4, 3, 2, 1, 0]"
    by (simp add: const_buffer_def flat_tree_def inner_def Node_of_def Node_of_hash_def)
      code_simp
  have g: "0 < BATCHSIZE \<and> int BATCHSIZE < 2 ^ 31
    \<and> Start \<lparr>Start = 0, End = 3\<rparr> \<le> End \<lparr>Start = 0, End = 3\<rparr>
    \<and> int (Size \<lparr>Start = 0, End = 3\<rparr>) + int BATCHSIZE \<le> 2 ^ 31"
    by (simp add: BATCHSIZE_def Size_def)
  have three: "replicate (Size \<lparr>Start = 0, End = 3\<rparr>) (- 10 :: Scalar) = [- 10, - 10, - 10]"
    by (simp add: Size_def numeral_3_eq_3)
  from dispatch_op_Sub_Div [of ?m ?t BATCHSIZE 4 3 2 "[1, 0]" BATCHSIZE "\<lparr>Start = 0, End = 3\<rparr>"
      "\<lambda>i k. 0" xy_data] h g
  have small: "(\<exists>r. dispatch_op Sub ?m ?t 4 = Some (?m[4 := r]) \<and>
        length r = BATCHSIZE \<and> (\<forall>k<BATCHSIZE. r ! k = - 10)) \<and>
      (\<exists>r. dispatch_op Div ?m ?t 4 = Some (?m[4 := r]) \<and>
        length r = BATCHSIZE \<and> (\<forall>k<BATCHSIZE. r ! k = 3 / 20)) \<and>
      Evaluate arith_table BATCHSIZE (\<lambda>i k. 0) ?t xy_data \<lparr>Start = 0, End = 3\<rparr> None
        = Some [- 10, - 10, - 10]"
    unfolding three by (simp add: const_buffer_nth)
  from dispatch_op_Sub_Div [of ?m6 ?t6 BATCHSIZE 6 5 4 "[3, 2, 1, 0]"] h6
  have six: "(\<exists>r. dispatch_op Sub ?m6 ?t6 6 = Some (?m6[6 := r]) \<and>
        length r = BATCHSIZE \<and> (\<forall>k<BATCHSIZE. r ! k = - 9)) \<and>
      (\<exists>r. dispatch_op Div ?m6 ?t6 6 = Some (?m6[6 := r]) \<and>
        length r = BATCHSIZE \<and> (\<forall>k<BATCHSIZE. r ! k = 1 / 20))"
    by (simp add: const_buffer_nth)
  from h h6 small six show ?thesis
    by simp
qed

text \<open>
  C5 as the specification states it fails at its own tree. In
  \<^verbatim>\<open>[c1=10, c2=1, c3=2, c4=3, Sub(arity=4, length=4)]\<close> the first operand of the kernel is
  the column at \<open>p - 1\<close>, which is \<open>c4\<close>: every row of the root column, and every output
  row of the interpreter, is \<open>3 - (2 + (1 + 10)) = -10\<close>, not \<open>4\<close>.
\<close>

theorem dispatch_op_Sub_counterexample:
  "dispatch_op Sub (const_buffer [10, 1, 2, 3, 0]) (flat_tree Sub [10, 1, 2, 3]) 4
     = Some (const_buffer [10, 1, 2, 3, - 10])
   \<and> Evaluate arith_table BATCHSIZE (\<lambda>i k. 0) (flat_tree Sub [10, 1, 2, 3]) xy_data
       \<lparr>Start = 0, End = 3\<rparr> None = Some [- 10, - 10, - 10]
   \<and> (- 10 :: Scalar) \<noteq> 4"
  by code_simp

end
